theory Spec2Isabelle
  imports Main "HOL-Library.Word"
begin

section \<open>tsresync: the stream resynchronizer of TSDuck (src/tstools/tsresync.cpp)\<close>

text \<open>
  The program reads a byte stream from standard input, looks for the framing of the
  MPEG transport packets in it, and writes the packets to standard output. This theory
  embeds the class \<open>Resynchronizer\<close> and the function \<open>main\<close> of tsresync.cpp.

  Conventions of the embedding.
  \<^item> A byte (\<open>uint8_t\<close>) is an \<open>8 word\<close>; a block of memory is a list of bytes.
  \<^item> A pointer into a block is the block (or the part of it from the pointer on) and an
    offset. Pointer comparisons are comparisons of offsets over \<open>int\<close>, since the code
    computes one-past and one-before positions by subtraction.
  \<^item> \<open>size_t\<close> quantities are \<open>nat\<close>: they are option values and sums or differences of
    them, far below the width of \<open>size_t\<close>. The 64-bit output counter \<open>_out_size\<close> is a
    \<open>nat\<close> whose additions wrap at \<open>2 ^ 64\<close>.
  \<^item> An \<open>assert\<close> that fails and a memory access outside a block are results of type
    \<open>fault\<close>; every function that can meet one returns \<open>fault + 'a\<close>.
  \<^item> \<open>std::cin\<close> and \<open>std::cout\<close> are explicit stream states passed in and returned.
\<close>

type_synonym byte = "8 word"

datatype fault = AssertionFailed | OutOfBounds

subsection \<open>Constants of tsMPEG.h\<close>

text \<open>
  Modelled from the spec: the header tsMPEG.h is not among the sources. The values are
  the ones the help text of tsresync.cpp gives: 188-byte standard packets, 204-byte
  packets with a trailing 16-byte Reed-Solomon code, 192-byte M2TS packets with a leading
  4-byte timestamp, and the synchronization byte 0x47.
\<close>

definition PKT_SIZE :: nat where
  "PKT_SIZE = 188"

definition PKT_RS_SIZE :: nat where
  "PKT_RS_SIZE = 204"

definition PKT_M2TS_SIZE :: nat where
  "PKT_M2TS_SIZE = 192"

definition M2TS_HEADER_SIZE :: nat where
  "M2TS_HEADER_SIZE = 4"

definition SYNC_BYTE :: byte where
  "SYNC_BYTE = 0x47"

subsection \<open>Memory blocks\<close>

text \<open>\<open>p[i]\<close>: reading one byte of a block; outside the block the access is a fault.\<close>

definition byte_at :: "byte list \<Rightarrow> nat \<Rightarrow> fault + byte" where
  "byte_at m i = (if i < length m then Inr (m ! i) else Inl OutOfBounds)"

text \<open>Reading \<open>n\<close> bytes at offset \<open>off\<close> (an \<open>int\<close>: the offset may be computed by subtraction).\<close>

definition fetch :: "byte list \<Rightarrow> int \<Rightarrow> nat \<Rightarrow> fault + byte list" where
  "fetch m off n =
     (if 0 \<le> off \<and> nat off + n \<le> length m then Inr (take n (drop (nat off) m))
      else Inl OutOfBounds)"

text \<open>Storing the bytes \<open>bs\<close> at offset \<open>off\<close>.\<close>

definition store :: "byte list \<Rightarrow> nat \<Rightarrow> byte list \<Rightarrow> fault + byte list" where
  "store m off bs =
     (if off + length bs \<le> length m then Inr (take off m @ bs @ drop (off + length bs) m)
      else Inl OutOfBounds)"

text \<open>
  \<open>::memmove (dst, src, n)\<close> inside one block: the \<open>n\<close> bytes at \<open>src\<close> are read first and
  then stored at \<open>dst\<close>, which is what makes the move right for overlapping ranges.
\<close>

definition memmove :: "byte list \<Rightarrow> nat \<Rightarrow> nat \<Rightarrow> nat \<Rightarrow> fault + byte list" where
  "memmove m dst src n =
     (case fetch m (int src) n of
        Inl f \<Rightarrow> Inl f
      | Inr bs \<Rightarrow> store m dst bs)"

subsection \<open>The streams\<close>

text \<open>
  \<open>std::cin\<close>. \<open>pending\<close> holds the characters that the stream will still deliver, and
  \<open>device_error\<close> says how the input ends once they are exhausted: with a clean end of
  file, or with an input error. \<open>eofbit\<close>, \<open>failbit\<close> and \<open>badbit\<close> are the state bits
  of the stream.
\<close>

record istream =
  pending :: "byte list"
  device_error :: bool
  eofbit :: bool
  failbit :: bool
  badbit :: bool

definition good :: "istream \<Rightarrow> bool" where
  "good is \<longleftrightarrow> \<not> eofbit is \<and> \<not> failbit is \<and> \<not> badbit is"

text \<open>\<open>fail()\<close>; the stream tested as a truth value is \<open>!fail()\<close>.\<close>

definition fail :: "istream \<Rightarrow> bool" where
  "fail is \<longleftrightarrow> failbit is \<or> badbit is"

text \<open>
  \<open>std::cin.read (s, n)\<close>, as the C++ standard defines \<open>istream::read\<close>. On a stream that
  is not good, \<open>failbit\<close> is set and nothing is extracted. Otherwise characters are
  extracted and stored until \<open>n\<close> are stored, or the input ends first: at the end of the
  file \<open>eofbit\<close> and \<open>failbit\<close> are set, on an input error \<open>badbit\<close>. The result is the
  characters stored (\<open>gcount()\<close> is their number) and the stream.
\<close>

definition istream_read :: "istream \<Rightarrow> nat \<Rightarrow> byte list \<times> istream" where
  "istream_read is n =
     (if \<not> good is then ([], is\<lparr>failbit := True\<rparr>)
      else if n \<le> length (pending is)
      then (take n (pending is), is\<lparr>pending := drop n (pending is)\<rparr>)
      else if device_error is
      then (pending is, is\<lparr>pending := [], badbit := True\<rparr>)
      else (pending is, is\<lparr>pending := [], eofbit := True, failbit := True\<rparr>))"

text \<open>
  The call \<open>std::cin.read (s, n)\<close> used as the condition of an \<open>if\<close>: the truth value of the
  stream after the call, the characters stored, and the stream.
\<close>

definition cin_read :: "istream \<Rightarrow> nat \<Rightarrow> bool \<times> byte list \<times> istream" where
  "cin_read is n =
     (\<not> fail (snd (istream_read is n)), fst (istream_read is n), snd (istream_read is n))"

text \<open>
  \<open>std::cout\<close>. \<open>written\<close> is everything written so far, \<open>room\<close> the number of bytes the
  device still accepts, \<open>obad\<close> the sticky failure state.
\<close>

record ostream =
  written :: "byte list"
  room :: nat
  obad :: bool

text \<open>\<open>std::cout.write (s, n)\<close> followed by the test of the stream.\<close>

definition cout_write :: "ostream \<Rightarrow> byte list \<Rightarrow> bool \<times> ostream" where
  "cout_write os bs =
     (if obad os then (False, os)
      else if length bs \<le> room os
      then (True, os\<lparr>written := written os @ bs, room := room os - length bs\<rparr>)
      else (False, os\<lparr>written := written os @ take (room os) bs, room := 0, obad := True\<rparr>))"

subsection \<open>Command line options\<close>

record Options =
  sync_size :: nat
  contig_size :: nat
  packet_size :: nat
  header_size :: nat
  cont_sync :: bool
  keep :: bool

definition MIN_SYNC_SIZE :: nat where
  "MIN_SYNC_SIZE = 1024"

definition MAX_SYNC_SIZE :: nat where
  "MAX_SYNC_SIZE = 8 * 1024 * 1024"

definition MIN_CONTIG_SIZE :: nat where
  "MIN_CONTIG_SIZE = 2 * PKT_SIZE"

definition MAX_CONTIG_SIZE :: nat where
  "MAX_CONTIG_SIZE = 8 * 1024 * 1024"

text \<open>
  The bounds that the constructor of \<open>Options\<close> declares for the integer options. A
  \<open>packet_size\<close> of zero stands for an absent option.
\<close>

definition declared_bounds :: "Options \<Rightarrow> bool" where
  "declared_bounds opt \<longleftrightarrow>
     MIN_SYNC_SIZE \<le> sync_size opt \<and> sync_size opt \<le> MAX_SYNC_SIZE \<and>
     MIN_CONTIG_SIZE \<le> contig_size opt \<and> contig_size opt \<le> MAX_CONTIG_SIZE \<and>
     (packet_size opt = 0 \<or> (PKT_SIZE \<le> packet_size opt \<and> packet_size opt \<le> 0x7FFFFFFF))"

text \<open>
  The condition of the check at the end of the constructor of \<open>Options\<close>, under which it
  calls \<open>error\<close>.
\<close>

definition header_too_large :: "Options \<Rightarrow> bool" where
  "header_too_large opt \<longleftrightarrow>
     packet_size opt > 0 \<and> header_size opt + PKT_SIZE > packet_size opt"

subsection \<open>The class Resynchronizer\<close>

datatype Status = RS_OK | RS_SYNC_LOST | RS_EOF | RS_ERROR

text \<open>The private members; \<open>r_status\<close> stands for \<open>_status\<close>, and so on.\<close>

record Resynchronizer =
  r_status :: Status
  r_keep_packet_size :: bool
  r_out_size :: nat
  r_in_pkt_size :: nat
  r_in_header_size :: nat
  r_out_pkt_size :: nat
  r_out_header_size :: nat

text \<open>The constructor \<open>Resynchronizer (keep_packet_size)\<close>.\<close>

definition new_Resynchronizer :: "bool \<Rightarrow> Resynchronizer" where
  "new_Resynchronizer keep_packet_size =
     \<lparr>r_status = RS_OK, r_keep_packet_size = keep_packet_size, r_out_size = 0,
      r_in_pkt_size = 0, r_in_header_size = 0, r_out_pkt_size = 0, r_out_header_size = 0\<rparr>"

definition reset :: "Resynchronizer \<Rightarrow> Resynchronizer" where
  "reset r = r\<lparr>r_status := RS_OK, r_in_pkt_size := 0, r_in_header_size := 0\<rparr>"

definition inputPacketSize :: "Resynchronizer \<Rightarrow> nat" where
  "inputPacketSize r = r_in_pkt_size r"

definition inputHeaderSize :: "Resynchronizer \<Rightarrow> nat" where
  "inputHeaderSize r = r_in_header_size r"

definition outputPacketSize :: "Resynchronizer \<Rightarrow> nat" where
  "outputPacketSize r = r_out_pkt_size r"

definition outputHeaderSize :: "Resynchronizer \<Rightarrow> nat" where
  "outputHeaderSize r = r_out_header_size r"

definition outputFileBytes :: "Resynchronizer \<Rightarrow> nat" where
  "outputFileBytes r = r_out_size r"

text \<open>
  Unsigned division as the machine has it: dividing by zero is no number (in C++ the
  behaviour is undefined, on the usual targets the process is killed).
\<close>

definition udiv :: "nat \<Rightarrow> nat \<Rightarrow> nat option" where
  "udiv a b = (if b = 0 then None else Some (a div b))"

text \<open>\<open>_out_pkt_size == 0 ? 0 : _out_size / _out_pkt_size\<close>; \<open>None\<close> is a division by zero.\<close>

definition outputFilePackets :: "Resynchronizer \<Rightarrow> nat option" where
  "outputFilePackets r =
     (if r_out_pkt_size r = 0 then Some 0 else udiv (r_out_size r) (r_out_pkt_size r))"

definition status :: "Resynchronizer \<Rightarrow> Status" where
  "status r = r_status r"

definition setStatus :: "Resynchronizer \<Rightarrow> Status \<Rightarrow> Resynchronizer" where
  "setStatus r s = r\<lparr>r_status := s\<rparr>"

subsubsection \<open>readData\<close>

text \<open>
  The loop of \<open>readData\<close>, with \<open>buf\<close> the block \<open>m\<close> at offset \<open>dst\<close>. The characters that
  \<open>read\<close> extracted are in the block whether it succeeded or not; \<open>got\<close> counts them only
  when it succeeded.
\<close>

function readData_loop ::
  "Resynchronizer \<Rightarrow> istream \<Rightarrow> byte list \<Rightarrow> nat \<Rightarrow> nat \<Rightarrow> nat \<Rightarrow>
   fault + (nat \<times> Resynchronizer \<times> istream \<times> byte list)" where
  "readData_loop r is m dst got remain =
     (if remain > 0 then
        (case store m (dst + got) (fst (snd (cin_read is remain))) of
           Inl f \<Rightarrow> Inl f
         | Inr m' \<Rightarrow>
             if fst (cin_read is remain) then
               readData_loop r (snd (snd (cin_read is remain))) m' dst
                 (got + length (fst (snd (cin_read is remain))))
                 (remain - length (fst (snd (cin_read is remain))))
             else
               Inr (got, (if got = 0 then r\<lparr>r_status := RS_EOF\<rparr> else r),
                    snd (snd (cin_read is remain)), m'))
      else Inr (got, r, is, m))"
  by pat_completeness auto
termination
proof (relation "measure (\<lambda>(r, is, m, dst, got, remain). remain)")
  show "wf (measure (\<lambda>(r, is, m, dst, got, remain). remain))"
    by simp
next
  fix r :: Resynchronizer and "is" :: istream and m m' :: "byte list" and dst got remain :: nat
  assume "0 < remain" and "fst (cin_read is remain)"
  then have "length (fst (snd (cin_read is remain))) = remain"
    by (auto simp: cin_read_def istream_read_def fail_def good_def split: if_splits)
  with \<open>0 < remain\<close>
  show "((r, snd (snd (cin_read is remain)), m', dst,
          got + length (fst (snd (cin_read is remain))),
          remain - length (fst (snd (cin_read is remain)))),
         (r, is, m, dst, got, remain))
        \<in> measure (\<lambda>(r, is, m, dst, got, remain). remain)"
    by simp
qed

definition readData ::
  "Resynchronizer \<Rightarrow> istream \<Rightarrow> byte list \<Rightarrow> nat \<Rightarrow> nat \<Rightarrow>
   fault + (nat \<times> Resynchronizer \<times> istream \<times> byte list)" where
  "readData r is m dst n = readData_loop r is m dst 0 n"

subsubsection \<open>writePacket\<close>

text \<open>
  \<open>input_packet\<close> is the block \<open>pkt\<close> from the pointer on. The counter is a \<open>uint64_t\<close>:
  the addition wraps at \<open>2 ^ 64\<close>.
\<close>

definition writePacket ::
  "Resynchronizer \<Rightarrow> byte list \<Rightarrow> ostream \<Rightarrow> fault + (bool \<times> Resynchronizer \<times> ostream)" where
  "writePacket r pkt os =
     (case fetch pkt (int (r_in_header_size r) - int (r_out_header_size r)) (r_out_pkt_size r) of
        Inl f \<Rightarrow> Inl f
      | Inr out_pkt \<Rightarrow>
          if fst (cout_write os out_pkt)
          then Inr (True, r\<lparr>r_out_size := (r_out_size r + r_out_pkt_size r) mod 2 ^ 64\<rparr>,
                    snd (cout_write os out_pkt))
          else Inr (False, r\<lparr>r_status := RS_ERROR\<rparr>, snd (cout_write os out_pkt)))"

subsubsection \<open>checkSync\<close>

text \<open>
  The loop of \<open>checkSync\<close>. \<open>buf\<close> is the memory from the pointer on, \<open>p\<close> the distance that
  the pointer has advanced, \<open>e\<close> the offset of \<open>end\<close>. The loop is entered under the
  assertion \<open>pkt_size \<ge> hdr_size + PKT_SIZE\<close>, so the stride is positive; the test
  \<open>0 < pkt_size\<close> says no more than that, and makes the recursion well founded.
\<close>

function scan :: "byte list \<Rightarrow> nat \<Rightarrow> nat \<Rightarrow> nat \<Rightarrow> int \<Rightarrow> fault + bool" where
  "scan buf hdr_size pkt_size p e =
     (if int p < e \<and> 0 < pkt_size then
        (case byte_at buf (p + hdr_size) of
           Inl f \<Rightarrow> Inl f
         | Inr b \<Rightarrow>
             if b \<noteq> SYNC_BYTE then Inr False
             else scan buf hdr_size pkt_size (p + pkt_size) e)
      else Inr True)"
  by pat_completeness auto
termination
  by (relation "measure (\<lambda>(buf, hdr_size, pkt_size, p, e). nat (e - int p))") auto

definition checkSync ::
  "Resynchronizer \<Rightarrow> byte list \<Rightarrow> nat \<Rightarrow> nat \<Rightarrow> nat \<Rightarrow> fault + (bool \<times> Resynchronizer)" where
  "checkSync r buf buf_size pkt_size hdr_size =
     (if \<not> pkt_size \<ge> hdr_size + PKT_SIZE then Inl AssertionFailed
      else
        (case scan buf hdr_size pkt_size 0 (int buf_size - int pkt_size + 1) of
           Inl f \<Rightarrow> Inl f
         | Inr False \<Rightarrow> Inr (False, r)
         | Inr True \<Rightarrow>
             Inr (True,
                  r\<lparr>r_in_pkt_size := pkt_size,
                    r_in_header_size := hdr_size,
                    r_out_pkt_size := (if r_keep_packet_size r then pkt_size else PKT_SIZE),
                    r_out_header_size := (if r_keep_packet_size r then hdr_size else 0)\<rparr>)))"

subsection \<open>The function main\<close>

text \<open>
  The local state of \<open>main\<close>: the resynchronizer, the synchronization buffer (a block of
  \<open>sync_size + contig_size\<close> bytes), the number of bytes pre-loaded in it, and the two
  streams.
\<close>

record engine =
  resync :: Resynchronizer
  sync_buf :: "byte list"
  sync_pre_size :: nat
  cin :: istream
  cout :: ostream

text \<open>
  The body of the search loop at one position: \<open>buf\<close> is the buffer from \<open>start\<close> on. The
  result is whether the loop is left by \<open>break\<close>.
\<close>

definition probe ::
  "Options \<Rightarrow> Resynchronizer \<Rightarrow> byte list \<Rightarrow> nat \<Rightarrow> fault + (bool \<times> Resynchronizer)" where
  "probe opt r buf search_size =
     (if packet_size opt > 0 then
        checkSync r buf search_size (packet_size opt) (header_size opt)
      else
        (case checkSync r buf search_size PKT_SIZE 0 of
           Inl f \<Rightarrow> Inl f
         | Inr (True, r1) \<Rightarrow> Inr (True, r1)
         | Inr (False, r1) \<Rightarrow>
             (case checkSync r1 buf search_size PKT_RS_SIZE 0 of
                Inl f \<Rightarrow> Inl f
              | Inr (True, r2) \<Rightarrow> Inr (True, r2)
              | Inr (False, r2) \<Rightarrow>
                  checkSync r2 buf search_size PKT_M2TS_SIZE M2TS_HEADER_SIZE)))"

text \<open>
  The search loop \<open>for (start = sync_buf; start < end_search; start++)\<close>; \<open>start\<close> and
  \<open>end_search\<close> are offsets in the buffer \<open>m\<close>. The result is the final \<open>start\<close>.
\<close>

function search ::
  "Options \<Rightarrow> Resynchronizer \<Rightarrow> byte list \<Rightarrow> nat \<Rightarrow> nat \<Rightarrow> nat \<Rightarrow>
   fault + (nat \<times> Resynchronizer)" where
  "search opt r m search_size start end_search =
     (if start < end_search then
        (case probe opt r (drop start m) search_size of
           Inl f \<Rightarrow> Inl f
         | Inr (True, r') \<Rightarrow> Inr (start, r')
         | Inr (False, r') \<Rightarrow> search opt r' m search_size (start + 1) end_search)
      else Inr (start, r))"
  by pat_completeness auto
termination
  by (relation "measure (\<lambda>(opt, r, m, search_size, start, end_search). end_search - start)") auto

text \<open>
  The loop that outputs the packets of the initial buffer; \<open>sync_end\<close> is the offset of the
  end of the data. The loop is reached with a packet size that \<open>checkSync\<close> has set, which
  is positive; the test \<open>0 < inputPacketSize r\<close> says no more than that, and makes the
  recursion well founded.
\<close>

function drain ::
  "Resynchronizer \<Rightarrow> byte list \<Rightarrow> nat \<Rightarrow> nat \<Rightarrow> ostream \<Rightarrow>
   fault + (nat \<times> Resynchronizer \<times> ostream)" where
  "drain r m sync_end start os =
     (if int start \<le> int sync_end - int (inputPacketSize r) \<and> 0 < inputPacketSize r then
        (case byte_at m (start + inputHeaderSize r) of
           Inl f \<Rightarrow> Inl f
         | Inr b \<Rightarrow>
             if b = SYNC_BYTE then
               (case writePacket r (drop start m) os of
                  Inl f \<Rightarrow> Inl f
                | Inr (False, r', os') \<Rightarrow> Inr (start, r', os')
                | Inr (True, r', os') \<Rightarrow> drain r' m sync_end (start + inputPacketSize r') os')
             else Inr (start, r, os))
      else Inr (start, r, os))"
  by pat_completeness auto
termination
  apply (relation "measure (\<lambda>(r, m, sync_end, start, os). sync_end - start)")
   apply simp
  apply (auto simp: writePacket_def inputPacketSize_def split: sum.splits if_splits)
  done

text \<open>
  The compaction of the buffer after that loop, and the test that follows it: the
  result is the resynchronizer, the buffer and the new \<open>sync_pre_size\<close>.
\<close>

definition compaction ::
  "Resynchronizer \<Rightarrow> byte list \<Rightarrow> nat \<Rightarrow> nat \<Rightarrow> fault + (Resynchronizer \<times> byte list \<times> nat)" where
  "compaction r m start sync_end =
     (case (if start \<ge> sync_end then Inr (0, m)
            else (case memmove m 0 start (sync_end - start) of
                    Inl f \<Rightarrow> Inl f
                  | Inr m' \<Rightarrow> Inr (sync_end - start, m'))) of
        Inl f \<Rightarrow> Inl f
      | Inr (pre, m') \<Rightarrow>
          Inr ((if pre \<ge> inputPacketSize r then setStatus r RS_SYNC_LOST else r), m', pre))"

text \<open>The body of the loop that reads the rest of the input, one packet at a time.\<close>

definition steady_step :: "engine \<Rightarrow> fault + engine" where
  "steady_step e =
     (if \<not> sync_pre_size e < inputPacketSize (resync e) then Inl AssertionFailed
      else
        (case readData (resync e) (cin e) (sync_buf e) (sync_pre_size e)
                (inputPacketSize (resync e) - sync_pre_size e) of
           Inl f \<Rightarrow> Inl f
         | Inr (got, r1, is1, m1) \<Rightarrow>
             if got \<noteq> inputPacketSize (resync e) - sync_pre_size e then
               Inr (e\<lparr>resync := setStatus r1 RS_EOF, sync_buf := m1, cin := is1\<rparr>)
             else
               (case byte_at m1 (inputHeaderSize r1) of
                  Inl f \<Rightarrow> Inl f
                | Inr b \<Rightarrow>
                    if b \<noteq> SYNC_BYTE then
                      Inr (e\<lparr>resync := setStatus r1 RS_SYNC_LOST, sync_buf := m1,
                             sync_pre_size := inputPacketSize r1, cin := is1\<rparr>)
                    else
                      (case writePacket r1 m1 (cout e) of
                         Inl f \<Rightarrow> Inl f
                       | Inr (ok, r2, os2) \<Rightarrow>
                           Inr (e\<lparr>resync := r2, sync_buf := m1, sync_pre_size := 0,
                                  cin := is1, cout := os2\<rparr>)))))"

text \<open>The loop \<open>while (resync.status() == RS_OK)\<close> around it.\<close>

function steady :: "engine \<Rightarrow> fault + engine" where
  "steady e =
     (if status (resync e) = RS_OK then
        (case steady_step e of
           Inl f \<Rightarrow> Inl f
         | Inr e' \<Rightarrow> steady e')
      else Inr e)"
  by pat_completeness auto
termination
proof (relation "measure (\<lambda>e. 2 * length (pending (cin e)) +
                              (if status (resync e) = RS_OK then 1 else 0))")
  show "wf (measure (\<lambda>e. 2 * length (pending (cin e)) +
                          (if status (resync e) = RS_OK then 1 else 0)))"
    by simp
next
  fix e e' :: engine
  assume ok: "status (resync e) = RS_OK" and step: "steady_step e = Inr e'"
  define n where "n = inputPacketSize (resync e) - sync_pre_size e"
  from step have pos: "0 < n"
    by (auto simp: steady_step_def n_def split: if_splits)
  have rd: "readData (resync e) (cin e) (sync_buf e) (sync_pre_size e) n =
      Inr (got, r1, is1, m1) \<Longrightarrow>
      (got = n \<and> length (pending is1) + n = length (pending (cin e)) \<and> r1 = resync e) \<or>
      (got = 0 \<and> length (pending is1) \<le> length (pending (cin e)))" for got r1 is1 m1
    using pos unfolding readData_def
    by (subst (asm) readData_loop.simps, subst (asm) readData_loop.simps)
       (auto simp: cin_read_def istream_read_def fail_def good_def split: if_splits sum.splits)
  from step ok pos
  have "2 * length (pending (cin e')) + (if status (resync e') = RS_OK then 1 else 0)
        < 2 * length (pending (cin e)) + 1"
    unfolding steady_step_def n_def [symmetric]
    by (auto simp: status_def setStatus_def split: if_splits sum.splits prod.splits dest!: rd)
  with ok
  show "(e', e) \<in> measure (\<lambda>e. 2 * length (pending (cin e)) +
                                (if status (resync e) = RS_OK then 1 else 0))"
    by simp
qed

text \<open>
  One turn of the loop \<open>do ... while\<close>. The result says whether the loop was left by
  \<open>break\<close>. The local variable \<open>sync_size\<close> of \<open>main\<close> is \<open>sync_len\<close> here, and it is also
  the offset of \<open>sync_end\<close>.
\<close>

definition pass :: "Options \<Rightarrow> engine \<Rightarrow> fault + (bool \<times> engine)" where
  "pass opt e =
     (case readData (reset (resync e)) (cin e) (sync_buf e) (sync_pre_size e)
             (length (sync_buf e) - sync_pre_size e) of
        Inl f \<Rightarrow> Inl f
      | Inr (read_size, r1, is1, m1) \<Rightarrow>
          (let sync_len = sync_pre_size e + read_size;
               search_size = min (contig_size opt) sync_len;
               end_search = sync_len - search_size + 1
           in case search opt r1 m1 search_size 0 end_search of
                Inl f \<Rightarrow> Inl f
              | Inr (start, r2) \<Rightarrow>
                  if inputPacketSize r2 = 0 then
                    Inr (True, e\<lparr>resync := setStatus r2 RS_ERROR, sync_buf := m1, cin := is1\<rparr>)
                  else
                    (case drain r2 m1 sync_len start (cout e) of
                       Inl f \<Rightarrow> Inl f
                     | Inr (start', r3, os3) \<Rightarrow>
                         if status r3 \<noteq> RS_OK then
                           Inr (True, e\<lparr>resync := r3, sync_buf := m1, cin := is1, cout := os3\<rparr>)
                         else
                           (case compaction r3 m1 start' sync_len of
                              Inl f \<Rightarrow> Inl f
                            | Inr (r4, m2, pre) \<Rightarrow>
                                (case steady \<lparr>resync = r4, sync_buf = m2, sync_pre_size = pre,
                                              cin = is1, cout = os3\<rparr> of
                                   Inl f \<Rightarrow> Inl f
                                 | Inr e' \<Rightarrow> Inr (False, e'))))))"

text \<open>
  The loop \<open>do ... while (status == RS_OK || (status == RS_SYNC_LOST && cont_sync))\<close>. The
  loop need not end, so the result is an option: \<open>None\<close> stands for a run that never
  returns.
\<close>

partial_function (option) resync_loop :: "Options \<Rightarrow> engine \<Rightarrow> (fault + engine) option" where
  "resync_loop opt e =
     (case pass opt e of
        Inl f \<Rightarrow> Some (Inl f)
      | Inr (left, e') \<Rightarrow>
          if \<not> left \<and> (status (resync e') = RS_OK \<or>
                         (status (resync e') = RS_SYNC_LOST \<and> cont_sync opt))
          then resync_loop opt e'
          else Some (Inr e'))"

declare resync_loop.simps [code]

datatype exit_code = EXIT_SUCCESS | EXIT_FAILURE

text \<open>
  How a run of the program ends: \<open>Rejected\<close> when the constructor of \<open>Options\<close> ends the
  process, \<open>Completed\<close> with the final resynchronizer when \<open>main\<close> returns.
\<close>

datatype outcome = Rejected | Completed Resynchronizer

text \<open>
  The program, run on an input stream and an output stream: the exit code, the outcome
  and the two streams as the run leaves them.

  Modelled from the spec: the class \<open>Args\<close> (tsArgs.h) is not among the sources. After a
  call of \<open>error\<close>, \<open>exitOnError\<close> ends the process with a failure before the constructor
  of \<open>Options\<close> returns, so before \<open>main\<close> touches a stream: the spec has the invalid
  framing "detected before any I/O, fatal, no partial output". The redirection of the two
  streams to files is outside the model.
\<close>

definition main ::
  "Options \<Rightarrow> istream \<Rightarrow> ostream \<Rightarrow>
   (fault + (exit_code \<times> outcome \<times> istream \<times> ostream)) option" where
  "main opt is os =
     (if header_too_large opt then Some (Inr (EXIT_FAILURE, Rejected, is, os))
      else
        (case resync_loop opt
                \<lparr>resync = new_Resynchronizer (keep opt),
                 sync_buf = replicate (sync_size opt + contig_size opt) 0,
                 sync_pre_size = 0, cin = is, cout = os\<rparr> of
           None \<Rightarrow> None
         | Some (Inl f) \<Rightarrow> Some (Inl f)
         | Some (Inr e) \<Rightarrow>
             Some (Inr ((if status (resync e) = RS_EOF then EXIT_SUCCESS else EXIT_FAILURE),
                        Completed (resync e), cin e, cout e))))"

subsection \<open>Notions used in the statements\<close>

text \<open>
  A packet of the input with its header and trailer stripped; a list of packets that all
  have the size \<open>pkt\<close> and the synchronization byte at offset \<open>hdr\<close>; a resynchronizer
  whose framing is \<open>pkt\<close>/\<open>hdr\<close> on input and the bare 188-byte packet on output.
\<close>

definition bare_packet :: "nat \<Rightarrow> byte list \<Rightarrow> byte list" where
  "bare_packet hdr P = take PKT_SIZE (drop hdr P)"

definition valid_packets :: "nat \<Rightarrow> nat \<Rightarrow> byte list list \<Rightarrow> bool" where
  "valid_packets pkt hdr pkts \<longleftrightarrow> (\<forall>P \<in> set pkts. length P = pkt \<and> P ! hdr = SYNC_BYTE)"

definition framed :: "nat \<Rightarrow> nat \<Rightarrow> Resynchronizer \<Rightarrow> bool" where
  "framed pkt hdr r \<longleftrightarrow>
     r_in_pkt_size r = pkt \<and> r_in_header_size r = hdr \<and>
     r_out_pkt_size r = PKT_SIZE \<and> r_out_header_size r = 0"

text \<open>
  The marker stands at every stride of the first \<open>n\<close> bytes of \<open>buf\<close>, for the framing
  \<open>pkt\<close>/\<open>hdr\<close>: at the offset \<open>hdr\<close> of each whole packet of the region.
\<close>

definition all_strides :: "byte list \<Rightarrow> nat \<Rightarrow> nat \<Rightarrow> nat \<Rightarrow> bool" where
  "all_strides buf n pkt hdr \<longleftrightarrow>
     (\<forall>k. k * pkt + pkt \<le> n \<longrightarrow> buf ! (k * pkt + hdr) = SYNC_BYTE)"

text \<open>
  What a run of the program shows to its caller: the exit code, the final status (none
  when the options are rejected) and the bytes on the output; \<open>None\<close> for a run that
  does not return or that ends in a fault.
\<close>

definition run_summary ::
  "(fault + (exit_code \<times> outcome \<times> istream \<times> ostream)) option \<Rightarrow>
   (exit_code \<times> Status option \<times> byte list) option" where
  "run_summary x =
     (case x of
        Some (Inr (c, Completed r, is', os')) \<Rightarrow> Some (c, Some (status r), written os')
      | Some (Inr (c, Rejected, is', os')) \<Rightarrow> Some (c, None, written os')
      | _ \<Rightarrow> None)"

text \<open>
  One turn of the loop up to the end of its first output loop (line 379 of
  tsresync.cpp): the read of the buffer, the search and the output of the packets found
  in the buffer, as in \<open>pass\<close>. The result is the state there: the end of the data, the
  position reached, the resynchronizer, the buffer and the two streams. It is \<open>None\<close>
  when the turn does not get there: no packet size was found, or a fault.
\<close>

definition after_drain ::
  "Options \<Rightarrow> engine \<Rightarrow>
   (nat \<times> nat \<times> Resynchronizer \<times> byte list \<times> istream \<times> ostream) option" where
  "after_drain opt e =
     (case readData (reset (resync e)) (cin e) (sync_buf e) (sync_pre_size e)
             (length (sync_buf e) - sync_pre_size e) of
        Inl f \<Rightarrow> None
      | Inr (read_size, r1, is1, m1) \<Rightarrow>
          (let sync_len = sync_pre_size e + read_size;
               search_size = min (contig_size opt) sync_len;
               end_search = sync_len - search_size + 1
           in case search opt r1 m1 search_size 0 end_search of
                Inl f \<Rightarrow> None
              | Inr (start, r2) \<Rightarrow>
                  if inputPacketSize r2 = 0 then None
                  else
                    (case drain r2 m1 sync_len start (cout e) of
                       Inl f \<Rightarrow> None
                     | Inr (start', r3, os3) \<Rightarrow> Some (sync_len, start', r3, m1, is1, os3))))"

text \<open>
  What is left at that point: the number of bytes from the position reached to the end
  of the data, the input packet size and the status.
\<close>

definition drain_summary :: "Options \<Rightarrow> engine \<Rightarrow> (nat \<times> nat \<times> Status) option" where
  "drain_summary opt e =
     (case after_drain opt e of
        None \<Rightarrow> None
      | Some (sync_end, start, r, m, is, os) \<Rightarrow>
          Some (sync_end - start, inputPacketSize r, status r))"

text \<open>
  What a turn leaves: whether the loop was left by \<open>break\<close>, the status and the number of
  bytes carried over.
\<close>

definition turn_summary :: "Options \<Rightarrow> engine \<Rightarrow> (bool \<times> Status \<times> nat) option" where
  "turn_summary opt e =
     (case pass opt e of
        Inl f \<Rightarrow> None
      | Inr (left, e') \<Rightarrow> Some (left, status (resync e'), sync_pre_size e'))"

text \<open>
  The totals of a run: the exit code, the final status, the totals of bytes and of
  packets that the resynchronizer reports, and the number of bytes on the output.
\<close>

definition run_counts ::
  "(fault + (exit_code \<times> outcome \<times> istream \<times> ostream)) option \<Rightarrow>
   (exit_code \<times> Status \<times> nat \<times> nat option \<times> nat) option" where
  "run_counts x =
     (case x of
        Some (Inr (c, Completed r, is', os')) \<Rightarrow>
          Some (c, status r, outputFileBytes r, outputFilePackets r, length (written os'))
      | _ \<Rightarrow> None)"

subsection \<open>Example data\<close>

text \<open>Concrete states, buffers and streams, used to instantiate the theorems below.\<close>

definition fresh :: Resynchronizer where
  "fresh = reset (new_Resynchronizer False)"

definition one_good_one_bad :: "byte list" where
  "one_good_one_bad = (SYNC_BYTE # replicate 187 0) @ replicate 188 0"


definition keeping :: Options where
  "keeping = \<lparr>sync_size = 1024, contig_size = 376, packet_size = 0, header_size = 0,
               cont_sync = True, keep = True\<rparr>"

definition rs_packet :: "byte list" where
  "rs_packet = SYNC_BYTE # replicate 203 0"

definition no_room :: ostream where
  "no_room = \<lparr>written = [], room = 0, obad = False\<rparr>"

definition locked_188 :: Resynchronizer where
  "locked_188 = fresh\<lparr>r_in_pkt_size := 188, r_out_pkt_size := 188\<rparr>"

definition at_end_of_file :: engine where
  "at_end_of_file =
     \<lparr>resync = locked_188, sync_buf = replicate 1400 0, sync_pre_size = 0,
      cin = \<lparr>pending = [], device_error = False, eofbit = False, failbit = False, badbit = False\<rparr>,
      cout = no_room\<rparr>"

definition at_input_error :: engine where
  "at_input_error =
     \<lparr>resync = locked_188, sync_buf = replicate 1400 0, sync_pre_size = 0,
      cin = \<lparr>pending = [], device_error = True, eofbit = False, failbit = False, badbit = False\<rparr>,
      cout = no_room\<rparr>"

definition pinned :: Options where
  "pinned = \<lparr>sync_size = 1024, contig_size = 376, packet_size = 208, header_size = 20,
              cont_sync = False, keep = False\<rparr>"

definition misconfigured :: Options where
  "misconfigured = \<lparr>sync_size = 1024, contig_size = 376, packet_size = 200, header_size = 20,
                     cont_sync = False, keep = False\<rparr>"

definition one_packet_stream :: istream where
  "one_packet_stream =
     \<lparr>pending = SYNC_BYTE # replicate 187 0, device_error = False, eofbit = False,
      failbit = False, badbit = False\<rparr>"

definition standard :: Options where
  "standard = \<lparr>sync_size = 1024, contig_size = 376, packet_size = 0, header_size = 0,
                cont_sync = False, keep = False\<rparr>"

definition input_of :: "byte list \<Rightarrow> istream" where
  "input_of bs = \<lparr>pending = bs, device_error = False, eofbit = False, failbit = False,
                  badbit = False\<rparr>"

definition spacious :: ostream where
  "spacious = \<lparr>written = [], room = 1000000, obad = False\<rparr>"

definition good_packet :: "byte list" where
  "good_packet = SYNC_BYTE # replicate 187 0"

definition stray_packet :: "byte list" where
  "stray_packet = (SYNC_BYTE # replicate 187 0) @ (SYNC_BYTE # replicate 15 0)"

definition stray_stream :: "byte list" where
  "stray_stream = concat (replicate 7 stray_packet)"

definition pinned_1000 :: Options where
  "pinned_1000 = \<lparr>sync_size = 1024, contig_size = 376, packet_size = 1000, header_size = 0,
                   cont_sync = True, keep = False\<rparr>"

definition stuck :: engine where
  "stuck =
     \<lparr>resync = \<lparr>r_status = RS_SYNC_LOST, r_keep_packet_size = False, r_out_size = 0,
                 r_in_pkt_size = 1000, r_in_header_size = 0, r_out_pkt_size = 188,
                 r_out_header_size = 0\<rparr>,
      sync_buf = replicate 1400 0, sync_pre_size = 1400,
      cin = (input_of (replicate 1400 0))\<lparr>pending := []\<rparr>, cout = spacious\<rparr>"

definition continuing :: Options where
  "continuing = \<lparr>sync_size = 1024, contig_size = 376, packet_size = 0, header_size = 0,
                  cont_sync = True, keep = False\<rparr>"

text \<open>
  The engine as \<open>main\<close> builds it with a buffer of 1400 bytes, on the input \<open>s\<close>; \<open>k\<close> is
  the option to keep the packet size.
\<close>

definition first_turn :: "bool \<Rightarrow> byte list \<Rightarrow> engine" where
  "first_turn k s =
     \<lparr>resync = new_Resynchronizer k, sync_buf = replicate 1400 0, sync_pre_size = 0,
      cin = input_of s, cout = spacious\<rparr>"

text \<open>
  The engine at the start of the second turn, when the first has written the first two
  blocks of 188 bytes of \<open>s\<close> and carried over the 1024 bytes that follow them.
\<close>

definition second_turn :: "bool \<Rightarrow> byte list \<Rightarrow> engine" where
  "second_turn k s =
     \<lparr>resync = \<lparr>r_status = RS_SYNC_LOST, r_keep_packet_size = k, r_out_size = 376,
                 r_in_pkt_size = 188, r_in_header_size = 0, r_out_pkt_size = 188,
                 r_out_header_size = 0\<rparr>,
      sync_buf = drop 376 (take 1400 s) @ drop 1024 (take 1400 s), sync_pre_size = 1024,
      cin = (input_of s)\<lparr>pending := drop 1400 s\<rparr>,
      cout = spacious\<lparr>written := take 188 s @ take 188 (drop 188 s), room := 999624\<rparr>\<rparr>"

text \<open>
  Two 188-byte packets, one stray byte, five 204-byte packets and three more bytes: 1400
  bytes.
\<close>

definition mixed_stream :: "byte list" where
  "mixed_stream = good_packet @ good_packet @ [0] @ concat (replicate 5 rs_packet) @ [0, 0, 0]"


section \<open>Properties of the synchronization check\<close>

declare scan.simps [simp del] readData_loop.simps [simp del] search.simps [simp del]
  drain.simps [simp del] steady.simps [simp del]

lemma scan_all_strides:
  assumes "0 < pkt_size" and "hdr_size < pkt_size"
    and "e \<le> int (length buf) - int pkt_size + 1"
  shows "scan buf hdr_size pkt_size p e =
         Inr (\<forall>k. int (p + k * pkt_size) < e \<longrightarrow> buf ! (p + k * pkt_size + hdr_size) = SYNC_BYTE)"
  using assms
proof (induction buf hdr_size pkt_size p e rule: scan.induct)
  case (1 buf hdr_size pkt_size p e)
  show ?case
  proof (cases "int p < e")
    case False
    then have "\<not> int (p + k * pkt_size) < e" for k
    proof -
      have "int p \<le> int (p + k * pkt_size)" by simp
      with False show ?thesis by linarith
    qed
    with False show ?thesis
      by (simp add: scan.simps)
  next
    case True
    with "1.prems" have inb: "p + hdr_size < length buf"
      by linarith
    show ?thesis
    proof (cases "buf ! (p + hdr_size) = SYNC_BYTE")
      case False
      have "\<not> (\<forall>k. int (p + k * pkt_size) < e \<longrightarrow> buf ! (p + k * pkt_size + hdr_size) = SYNC_BYTE)"
        using True False by (auto intro: exI [of _ 0])
      with True False inb "1.prems" show ?thesis
        by (simp add: scan.simps [of buf hdr_size pkt_size p] byte_at_def)
    next
      case here: True
      have ih: "scan buf hdr_size pkt_size (p + pkt_size) e =
          Inr (\<forall>k. int (p + pkt_size + k * pkt_size) < e \<longrightarrow>
                    buf ! (p + pkt_size + k * pkt_size + hdr_size) = SYNC_BYTE)"
        using "1.IH" [of "buf ! (p + hdr_size)"] True "1.prems" inb here
        by (simp add: byte_at_def)
      have shift: "(\<forall>k. int (p + k * pkt_size) < e \<longrightarrow> buf ! (p + k * pkt_size + hdr_size) = SYNC_BYTE)
          \<longleftrightarrow> (\<forall>k. int (p + pkt_size + k * pkt_size) < e \<longrightarrow>
                    buf ! (p + pkt_size + k * pkt_size + hdr_size) = SYNC_BYTE)"
        (is "?L \<longleftrightarrow> ?R")
      proof
        assume l: ?L
        show ?R
        proof (intro allI impI)
          fix k assume "int (p + pkt_size + k * pkt_size) < e"
          with l [rule_format, of "Suc k"]
          show "buf ! (p + pkt_size + k * pkt_size + hdr_size) = SYNC_BYTE"
            by (simp add: add.assoc)
        qed
      next
        assume r: ?R
        show ?L
        proof (intro allI impI)
          fix k assume k: "int (p + k * pkt_size) < e"
          show "buf ! (p + k * pkt_size + hdr_size) = SYNC_BYTE"
          proof (cases k)
            case 0
            with here show ?thesis by simp
          next
            case (Suc j)
            with k r [rule_format, of j] show ?thesis
              by (simp add: add.assoc)
          qed
        qed
      qed
      from True here inb "1.prems"
      have step: "scan buf hdr_size pkt_size p e = scan buf hdr_size pkt_size (p + pkt_size) e"
        by (simp add: scan.simps [of buf hdr_size pkt_size p] byte_at_def)
      show ?thesis
        by (simp only: step ih shift)
    qed
  qed
qed

lemma scan_first_failure:
  assumes "0 < pkt_size"
    and "int (p + j * pkt_size) < e"
    and "p + j * pkt_size + hdr_size < length buf"
    and "buf ! (p + j * pkt_size + hdr_size) \<noteq> SYNC_BYTE"
    and "\<forall>k<j. buf ! (p + k * pkt_size + hdr_size) = SYNC_BYTE"
  shows "scan buf hdr_size pkt_size p e = Inr False"
  using assms
proof (induction j arbitrary: p)
  case 0
  then show ?case
    by (simp add: scan.simps [of buf hdr_size pkt_size p] byte_at_def)
next
  case (Suc j)
  have "int p \<le> int (p + Suc j * pkt_size)" and "p + hdr_size \<le> p + Suc j * pkt_size + hdr_size"
    by simp_all
  with Suc.prems(2,3) have lt: "int p < e" and inb: "p + hdr_size < length buf"
    by linarith+
  from Suc.prems have here: "buf ! (p + hdr_size) = SYNC_BYTE"
    by (auto dest: spec [of _ 0])
  have "scan buf hdr_size pkt_size (p + pkt_size) e = Inr False"
  proof (rule Suc.IH)
    show "0 < pkt_size" by fact
    show "int (p + pkt_size + j * pkt_size) < e"
      using Suc.prems(2) by (simp add: add.assoc)
    show "p + pkt_size + j * pkt_size + hdr_size < length buf"
      using Suc.prems(3) by (simp add: add.assoc)
    show "buf ! (p + pkt_size + j * pkt_size + hdr_size) \<noteq> SYNC_BYTE"
      using Suc.prems(4) by (simp add: add.assoc)
    show "\<forall>k<j. buf ! (p + pkt_size + k * pkt_size + hdr_size) = SYNC_BYTE"
    proof (intro allI impI)
      fix k assume "k < j"
      with Suc.prems(5) [rule_format, of "Suc k"]
      show "buf ! (p + pkt_size + k * pkt_size + hdr_size) = SYNC_BYTE"
        by (simp add: add.assoc)
    qed
  qed
  with lt inb here Suc.prems(1) show ?case
    by (simp add: scan.simps [of buf hdr_size pkt_size p] byte_at_def)
qed

lemma checkSync_short_region:
  assumes "hdr_size + PKT_SIZE \<le> pkt_size" and "buf_size < pkt_size"
  shows "checkSync r buf buf_size pkt_size hdr_size =
         Inr (True, r\<lparr>r_in_pkt_size := pkt_size, r_in_header_size := hdr_size,
                      r_out_pkt_size := (if r_keep_packet_size r then pkt_size else PKT_SIZE),
                      r_out_header_size := (if r_keep_packet_size r then hdr_size else 0)\<rparr>)"
  using assms by (simp add: checkSync_def scan.simps)


lemma checkSync_cases:
  assumes "checkSync r buf buf_size pkt_size hdr_size = Inr (ok, r')"
  shows "(\<not> ok \<and> r' = r) \<or>
         (ok \<and> hdr_size + PKT_SIZE \<le> pkt_size \<and>
          r' = r\<lparr>r_in_pkt_size := pkt_size, r_in_header_size := hdr_size,
                r_out_pkt_size := (if r_keep_packet_size r then pkt_size else PKT_SIZE),
                r_out_header_size := (if r_keep_packet_size r then hdr_size else 0)\<rparr>)"
  using assms by (auto simp: checkSync_def split: if_splits sum.splits bool.splits)

text \<open>
  Claim C1 says that \<open>checkSync\<close> returns false, and confirms no framing, on a region
  that is shorter than one packet. The code does otherwise: \<open>end\<close> is then not after
  \<open>buf\<close>, the loop is not entered, and the function records the framing and returns
  true (lemma \<open>checkSync_short_region\<close>). Here it is evaluated on a region of 100 zero
  bytes and the standard packet size: the result is true, and the framing 188/0 is set.
\<close>

theorem checkSync_short_region_confirmed:
  "checkSync fresh (replicate 100 0) 100 PKT_SIZE 0 =
     Inr (True, fresh\<lparr>r_in_pkt_size := 188, r_in_header_size := 0,
                        r_out_pkt_size := 188, r_out_header_size := 0\<rparr>)"
  by (simp add: checkSync_short_region PKT_SIZE_def fresh_def reset_def new_Resynchronizer_def)

text \<open>
  Claim C2: on a region of at least one packet, \<open>checkSync\<close> returns true if and only if
  every position \<open>k * pkt_size\<close> with \<open>k * pkt_size + pkt_size \<le> buf_size\<close> has the
  synchronization byte at offset \<open>hdr_size\<close>. It returns false at the first position
  \<open>j\<close> that fails without reading anything later: the result is false, and the state
  unchanged, on every memory \<open>buf'\<close> that agrees with \<open>buf\<close> up to the failing byte, also
  on one that ends right there, where any later read would be a fault.
\<close>

theorem checkSync_true_iff_every_stride:
  assumes "hdr_size + PKT_SIZE \<le> pkt_size" and "pkt_size \<le> buf_size"
    and "buf_size \<le> length buf"
  shows "(\<exists>b r'. checkSync r buf buf_size pkt_size hdr_size = Inr (b, r') \<and>
            (b \<longleftrightarrow> (\<forall>k. k * pkt_size + pkt_size \<le> buf_size \<longrightarrow>
                          buf ! (k * pkt_size + hdr_size) = SYNC_BYTE))) \<and>
         (\<forall>j buf'. j * pkt_size + pkt_size \<le> buf_size \<and>
                   buf ! (j * pkt_size + hdr_size) \<noteq> SYNC_BYTE \<and>
                   (\<forall>k<j. buf ! (k * pkt_size + hdr_size) = SYNC_BYTE) \<and>
                   take (j * pkt_size + hdr_size + 1) buf' = take (j * pkt_size + hdr_size + 1) buf
                   \<longrightarrow> checkSync r buf' buf_size pkt_size hdr_size = Inr (False, r))"
proof (intro conjI allI impI)
  from assms have pos: "0 < pkt_size" and hdr: "hdr_size < pkt_size"
    by (simp_all add: PKT_SIZE_def)
  let ?e = "int buf_size - int pkt_size + 1"
  from assms have e: "?e \<le> int (length buf) - int pkt_size + 1"
    by simp
  have cond: "int (0 + k * pkt_size) < ?e \<longleftrightarrow> k * pkt_size + pkt_size \<le> buf_size" for k
  proof -
    have "int (0 + k * pkt_size) < ?e \<longleftrightarrow> int (k * pkt_size + pkt_size) \<le> int buf_size"
      by auto
    then show ?thesis
      by (simp only: of_nat_le_iff)
  qed
  define A where "A \<longleftrightarrow> (\<forall>k. k * pkt_size + pkt_size \<le> buf_size \<longrightarrow>
                           buf ! (k * pkt_size + hdr_size) = SYNC_BYTE)"
  have sc: "scan buf hdr_size pkt_size 0 ?e = Inr A"
    unfolding scan_all_strides [OF pos hdr e, of 0] cond A_def by simp
  have "\<exists>r'. checkSync r buf buf_size pkt_size hdr_size = Inr (A, r')"
    using assms(1) by (cases A) (simp_all add: checkSync_def sc)
  then show "\<exists>b r'. checkSync r buf buf_size pkt_size hdr_size = Inr (b, r') \<and>
            (b \<longleftrightarrow> (\<forall>k. k * pkt_size + pkt_size \<le> buf_size \<longrightarrow>
                          buf ! (k * pkt_size + hdr_size) = SYNC_BYTE))"
    unfolding A_def by blast
next
  fix j buf'
  assume a: "j * pkt_size + pkt_size \<le> buf_size \<and>
             buf ! (j * pkt_size + hdr_size) \<noteq> SYNC_BYTE \<and>
             (\<forall>k<j. buf ! (k * pkt_size + hdr_size) = SYNC_BYTE) \<and>
             take (j * pkt_size + hdr_size + 1) buf' = take (j * pkt_size + hdr_size + 1) buf"
  let ?n = "j * pkt_size + hdr_size + 1"
  from assms have pos: "0 < pkt_size" and hdr: "hdr_size < pkt_size"
    by (simp_all add: PKT_SIZE_def)
  from a assms hdr have n: "?n \<le> length buf"
    by linarith
  from a have tk: "take ?n buf' = take ?n buf"
    by simp
  have "length (take ?n buf') = length (take ?n buf)"
    by (simp only: tk)
  with n have n': "?n \<le> length buf'"
    by simp
  have same: "buf' ! i = buf ! i" if "i < ?n" for i
  proof -
    from that have "buf' ! i = take ?n buf' ! i" and "buf ! i = take ?n buf ! i"
      by simp_all
    then show ?thesis by (simp only: tk)
  qed
  have "k * pkt_size + hdr_size < ?n" if "k \<le> j" for k
  proof -
    from that have "k * pkt_size \<le> j * pkt_size" by (rule mult_le_mono1)
    then show ?thesis by linarith
  qed
  with a have later: "buf' ! (0 + j * pkt_size + hdr_size) \<noteq> SYNC_BYTE"
    and before: "\<forall>k<j. buf' ! (0 + k * pkt_size + hdr_size) = SYNC_BYTE"
    by (simp_all add: same)
  have "scan buf' hdr_size pkt_size 0 (int buf_size - int pkt_size + 1) = Inr False"
  proof (rule scan_first_failure [OF pos _ _ later before])
    from a have "int (j * pkt_size + pkt_size) \<le> int buf_size"
      by (simp only: of_nat_le_iff)
    then show "int (0 + j * pkt_size) < int buf_size - int pkt_size + 1"
      by auto
    from n' show "0 + j * pkt_size + hdr_size < length buf'"
      by simp
  qed
  with assms(1) show "checkSync r buf' buf_size pkt_size hdr_size = Inr (False, r)"
    by (simp add: checkSync_def)
qed

theorem checkSync_true_iff_every_stride_witness:
  "(0::nat) + PKT_SIZE \<le> 188 \<and> (188::nat) \<le> 376 \<and> 376 \<le> length one_good_one_bad \<and>
   (\<exists>r'. checkSync fresh one_good_one_bad 376 188 0 = Inr (False, r')) \<and>
   checkSync fresh (take 189 one_good_one_bad) 376 188 0 = Inr (False, fresh)"
proof -
  have h1: "(0::nat) + PKT_SIZE \<le> 188" and h2: "(188::nat) \<le> 376"
    and h3: "376 \<le> length one_good_one_bad"
    by (simp_all add: PKT_SIZE_def one_good_one_bad_def)
  note inst = checkSync_true_iff_every_stride [OF h1 h2 h3, of fresh]
  have bad: "one_good_one_bad ! 188 \<noteq> SYNC_BYTE"
    by (simp add: one_good_one_bad_def nth_append SYNC_BYTE_def)
  have good: "one_good_one_bad ! 0 = SYNC_BYTE"
    by (simp add: one_good_one_bad_def)
  have "\<not> (\<forall>k. k * 188 + 188 \<le> (376::nat) \<longrightarrow> one_good_one_bad ! (k * 188 + 0) = SYNC_BYTE)"
    using bad by (auto intro!: exI [of _ 1])
  with inst have first: "\<exists>r'. checkSync fresh one_good_one_bad 376 188 0 = Inr (False, r')"
    by auto
  have "\<forall>k<1. one_good_one_bad ! (k * 188 + 0) = SYNC_BYTE"
    using good by simp
  with bad inst [THEN conjunct2, rule_format, of 1 "take 189 one_good_one_bad"]
  have "checkSync fresh (take 189 one_good_one_bad) 376 188 0 = Inr (False, fresh)"
    by simp
  with h1 h2 h3 first show ?thesis
    by simp
qed

text \<open>
  Claim C9: when \<open>checkSync\<close> returns false, the resynchronizer is unchanged: packet
  sizes, header sizes, output counter and status keep their values.
\<close>

theorem checkSync_false_unchanged:
  assumes "checkSync r buf buf_size pkt_size hdr_size = Inr (False, r')"
  shows "r' = r \<and> inputPacketSize r' = inputPacketSize r \<and>
         inputHeaderSize r' = inputHeaderSize r \<and>
         outputPacketSize r' = outputPacketSize r \<and>
         outputHeaderSize r' = outputHeaderSize r \<and>
         outputFileBytes r' = outputFileBytes r \<and> status r' = status r"
proof -
  from assms have "r' = r"
    by (auto simp: checkSync_def split: if_splits sum.splits bool.splits)
  then show ?thesis by simp
qed

theorem checkSync_false_unchanged_witness:
  "\<exists>r'. checkSync fresh (replicate 188 0) 188 188 0 = Inr (False, r') \<and> r' = fresh \<and>
        inputPacketSize r' = 0 \<and> status r' = RS_OK"
proof -
  have "checkSync fresh (replicate 188 0) 188 188 0 = Inr (False, fresh)"
    by (simp add: checkSync_def scan.simps byte_at_def PKT_SIZE_def SYNC_BYTE_def)
  moreover from checkSync_false_unchanged [OF this]
  have "inputPacketSize fresh = 0 \<and> status fresh = RS_OK"
    by (simp add: fresh_def reset_def inputPacketSize_def status_def)
  ultimately show ?thesis by blast
qed

text \<open>
  Claim C10: \<open>outputFilePackets\<close> never divides by zero. It returns 0 when the output
  packet size is 0, and the quotient of the output size by the output packet size
  otherwise.
\<close>

theorem outputFilePackets_total:
  "outputFilePackets r =
     Some (if outputPacketSize r = 0 then 0 else outputFileBytes r div outputPacketSize r) \<and>
   outputFilePackets r \<noteq> None"
  by (simp add: outputFilePackets_def udiv_def outputPacketSize_def outputFileBytes_def)

section \<open>Properties of readData\<close>

lemma cin_read_ok_length: "fst (cin_read is n) \<Longrightarrow> length (fst (snd (cin_read is n))) = n"
  by (auto simp: cin_read_def istream_read_def fail_def good_def split: if_splits)

lemma readData_eq:
  "readData r is m dst n =
     (if n = 0 then Inr (0, r, is, m)
      else
        (case store m dst (fst (snd (cin_read is n))) of
           Inl f \<Rightarrow> Inl f
         | Inr m' \<Rightarrow>
             if fst (cin_read is n) then Inr (n, r, snd (snd (cin_read is n)), m')
             else Inr (0, r\<lparr>r_status := RS_EOF\<rparr>, snd (snd (cin_read is n)), m')))"
proof (cases "n = 0")
  case True
  then show ?thesis
    by (simp add: readData_def readData_loop.simps)
next
  case False
  show ?thesis
  proof (cases "fst (cin_read is n)")
    case True
    from cin_read_ok_length [OF this] False True show ?thesis
      by (simp add: readData_def readData_loop.simps [of r "is" m dst 0 n] readData_loop.simps [of _ _ _ _ _ 0]
          split: sum.splits)
  next
    case False
    with \<open>n \<noteq> 0\<close> show ?thesis
      by (simp add: readData_def readData_loop.simps [of r "is" m dst 0 n] split: sum.splits)
  qed
qed

lemma readData_result:
  assumes "readData r is m dst n = Inr (got, r', is', m')"
  shows "(r' = r \<or> r' = r\<lparr>r_status := RS_EOF\<rparr>) \<and> (got = n \<or> got = 0) \<and>
         length m' = length m \<and> take dst m' = take dst m"
  using assms
  by (auto simp: readData_eq store_def split: if_splits sum.splits)

lemma readData_full:
  assumes "good is" and "n \<le> length (pending is)" and "dst + n \<le> length m"
  shows "readData r is m dst n =
         Inr (n, r, is\<lparr>pending := drop n (pending is)\<rparr>,
              take dst m @ take n (pending is) @ drop (dst + n) m)"
  using assms
  by (cases "is") (auto simp: readData_eq store_def cin_read_def istream_read_def fail_def good_def)

section \<open>The output totals\<close>

lemma div_le_div_smaller_divisor:
  fixes a :: nat
  assumes "0 < q" and "q \<le> p"
  shows "a div p \<le> a div q"
  using assms by (simp add: div_le_mono2)

text \<open>
  The operations on a resynchronizer are \<open>reset\<close>, \<open>setStatus\<close>, \<open>readData\<close>, \<open>writePacket\<close>
  and \<open>checkSync\<close>. Short of the wrap of the 64-bit counter, none of them lowers the total
  of bytes written. The total of packets is the quotient of the bytes by the current
  output packet size: no operation that leaves that size alone lowers it, and
  \<open>checkSync\<close> does not lower it when the output packet size was zero or does not grow.
\<close>

lemma totals_across_operations:
  assumes "r_out_size r + r_out_pkt_size r < 2 ^ 64"
  shows "outputFileBytes (reset r) = outputFileBytes r \<and>
         outputFilePackets (reset r) = outputFilePackets r \<and>
         outputFileBytes (setStatus r s) = outputFileBytes r \<and>
         outputFilePackets (setStatus r s) = outputFilePackets r \<and>
         (\<forall>got r' is' m'. readData r is m dst n = Inr (got, r', is', m') \<longrightarrow>
            outputFileBytes r' = outputFileBytes r \<and>
            outputFilePackets r' = outputFilePackets r) \<and>
         (\<forall>ok r' os'. writePacket r pkt os = Inr (ok, r', os') \<longrightarrow>
            outputFileBytes r \<le> outputFileBytes r' \<and>
            the (outputFilePackets r) \<le> the (outputFilePackets r')) \<and>
         (\<forall>ok r'. checkSync r buf buf_size pkt_size hdr_size = Inr (ok, r') \<longrightarrow>
            outputFileBytes r' = outputFileBytes r \<and>
            (outputPacketSize r = 0 \<or> outputPacketSize r' \<le> outputPacketSize r \<longrightarrow>
               the (outputFilePackets r) \<le> the (outputFilePackets r')))"
proof (intro conjI allI impI)
  show "outputFileBytes (reset r) = outputFileBytes r"
    and "outputFilePackets (reset r) = outputFilePackets r"
    and "outputFileBytes (setStatus r s) = outputFileBytes r"
    and "outputFilePackets (setStatus r s) = outputFilePackets r"
    by (simp_all add: reset_def setStatus_def outputFileBytes_def outputFilePackets_def)
next
  fix got r' is' m'
  assume "readData r is m dst n = Inr (got, r', is', m')"
  from readData_result [OF this] have "r' = r \<or> r' = r\<lparr>r_status := RS_EOF\<rparr>"
    by simp
  then show "outputFileBytes r' = outputFileBytes r"
    and "outputFilePackets r' = outputFilePackets r"
    by (auto simp: outputFileBytes_def outputFilePackets_def)
next
  fix ok r' os'
  assume w: "writePacket r pkt os = Inr (ok, r', os')"
  define total where "total = (r_out_size r + r_out_pkt_size r) mod 2 ^ 64"
  from assms have total: "total = r_out_size r + r_out_pkt_size r"
    by (simp add: total_def)
  from w have r': "r' = r\<lparr>r_out_size := total\<rparr> \<or> r' = r\<lparr>r_status := RS_ERROR\<rparr>"
    unfolding total_def by (auto simp: writePacket_def split: sum.splits if_splits)
  from r' show "outputFileBytes r \<le> outputFileBytes r'"
    by (auto simp: outputFileBytes_def total)
  have "r_out_size r div r_out_pkt_size r \<le> (r_out_size r + r_out_pkt_size r) div r_out_pkt_size r"
    by (rule div_le_mono) simp
  with r' show "the (outputFilePackets r) \<le> the (outputFilePackets r')"
    by (auto simp: outputFilePackets_def udiv_def total)
next
  fix ok r'
  assume c: "checkSync r buf buf_size pkt_size hdr_size = Inr (ok, r')"
  then have sz: "r_out_size r' = r_out_size r"
    by (auto simp: checkSync_def split: sum.splits if_splits bool.splits)
  then show "outputFileBytes r' = outputFileBytes r"
    by (simp add: outputFileBytes_def)
  assume "outputPacketSize r = 0 \<or> outputPacketSize r' \<le> outputPacketSize r"
  then show "the (outputFilePackets r) \<le> the (outputFilePackets r')"
  proof
    assume "outputPacketSize r = 0"
    then show ?thesis
      by (simp add: outputFilePackets_def outputPacketSize_def)
  next
    assume le: "outputPacketSize r' \<le> outputPacketSize r"
    show ?thesis
    proof (cases "r_out_pkt_size r' = 0")
      case True
      from c have "r_out_pkt_size r' = r_out_pkt_size r \<or> 0 < r_out_pkt_size r'"
        by (auto simp: checkSync_def PKT_SIZE_def split: sum.splits if_splits bool.splits)
      with True show ?thesis
        by (simp add: outputFilePackets_def)
    next
      case False
      with le have "r_out_size r div r_out_pkt_size r \<le> r_out_size r div r_out_pkt_size r'"
        by (intro div_le_div_smaller_divisor) (simp_all add: outputPacketSize_def)
      with False le show ?thesis
        by (simp add: outputFilePackets_def udiv_def outputPacketSize_def sz)
    qed
  qed
qed


section \<open>The loop that reads one packet at a time\<close>

lemma steady_stops: "status (resync e) \<noteq> RS_OK \<Longrightarrow> steady e = Inr e"
  by (simp add: steady.simps)

lemma steady_unfold:
  "status (resync e) = RS_OK \<Longrightarrow>
   steady e = (case steady_step e of Inl f \<Rightarrow> Inl f | Inr e' \<Rightarrow> steady e')"
  by (simp add: steady.simps [of e])

text \<open>
  Claim C3, as the code has it: in the loop that reads one packet at a time, a read
  that returns fewer bytes than requested sets the status \<open>RS_EOF\<close> and ends the loop,
  whatever made the read short. \<open>readData\<close> tests the stream only as a truth value, and
  the loop only the count, so an input error is not told from the end of the file.
\<close>

theorem steady_short_read_is_end_of_file:
  assumes "sync_pre_size e < inputPacketSize (resync e)"
    and "readData (resync e) (cin e) (sync_buf e) (sync_pre_size e)
           (inputPacketSize (resync e) - sync_pre_size e) = Inr (got, r1, is1, m1)"
    and "got \<noteq> inputPacketSize (resync e) - sync_pre_size e"
  shows "\<exists>e'. steady_step e = Inr e' \<and> status (resync e') = RS_EOF \<and> steady e' = Inr e' \<and>
              cin e' = is1 \<and> fail (cin e') \<and> cout e' = cout e"
proof -
  let ?e' = "e\<lparr>resync := setStatus r1 RS_EOF, sync_buf := m1, cin := is1\<rparr>"
  from assms have step: "steady_step e = Inr ?e'"
    by (simp add: steady_step_def)
  have st: "status (resync ?e') = RS_EOF"
    by (simp add: status_def setStatus_def)
  then have stop: "steady ?e' = Inr ?e'"
    by (simp add: steady_stops)
  from assms have "fail is1"
    by (auto simp: readData_eq cin_read_def split: if_splits sum.splits)
  with step st stop show ?thesis
    by simp
qed

theorem steady_short_read_is_end_of_file_witness:
  "sync_pre_size at_end_of_file < inputPacketSize (resync at_end_of_file) \<and>
   (\<exists>e'. steady_step at_end_of_file = Inr e' \<and> status (resync e') = RS_EOF \<and>
         steady e' = Inr e' \<and> eofbit (cin e'))"
proof -
  have h1: "sync_pre_size at_end_of_file < inputPacketSize (resync at_end_of_file)"
    by (simp add: at_end_of_file_def locked_188_def inputPacketSize_def)
  define is1 where "is1 = \<lparr>pending = [], device_error = False, eofbit = True, failbit = True,
    badbit = False\<rparr>"
  have h2: "readData (resync at_end_of_file) (cin at_end_of_file) (sync_buf at_end_of_file)
      (sync_pre_size at_end_of_file)
      (inputPacketSize (resync at_end_of_file) - sync_pre_size at_end_of_file) =
      Inr (0, locked_188\<lparr>r_status := RS_EOF\<rparr>, is1, replicate 1400 0)"
    by (simp add: readData_eq at_end_of_file_def locked_188_def inputPacketSize_def store_def
        cin_read_def istream_read_def good_def fail_def is1_def)
  have h3: "0 \<noteq> inputPacketSize (resync at_end_of_file) - sync_pre_size at_end_of_file"
    by (simp add: at_end_of_file_def locked_188_def inputPacketSize_def)
  from steady_short_read_is_end_of_file [OF h1 h2 h3] h1 show ?thesis
    by (auto simp: is1_def)
qed

text \<open>
  Claim C3 as it is stated fails on an input error: the read sets \<open>badbit\<close> and not
  \<open>eofbit\<close>, and the status becomes \<open>RS_EOF\<close>, not \<open>RS_ERROR\<close>.
\<close>

theorem steady_input_error_counterexample:
  "(case steady_step at_input_error of
      Inl f \<Rightarrow> None
    | Inr e' \<Rightarrow> Some (badbit (cin e'), eofbit (cin e'), status (resync e'))) =
   Some (True, False, RS_EOF)"
  by (simp add: steady_step_def readData_eq at_input_error_def locked_188_def inputPacketSize_def
      store_def cin_read_def istream_read_def good_def fail_def status_def setStatus_def)

section \<open>The compaction of the buffer\<close>

lemma memmove_front:
  assumes "src + n \<le> length m"
  shows "memmove m 0 src n = Inr (take n (drop src m) @ drop n m)"
  using assms by (simp add: memmove_def fetch_def store_def)


section \<open>A packet size given on the command line\<close>

lemma search_confirms_pinned:
  assumes "packet_size opt > 0"
    and "search opt r m search_size start end_search = Inr (s, r')"
  shows "r' = r \<or> (inputPacketSize r' = packet_size opt \<and> inputHeaderSize r' = header_size opt)"
  using assms
proof (induction opt r m search_size start end_search rule: search.induct)
  case (1 opt r m search_size start end_search)
  show ?case
  proof (cases "start < end_search")
    case False
    with "1.prems" show ?thesis
      by (simp add: search.simps [of opt r m search_size start])
  next
    case True
    from "1.prems"(1) have p: "probe opt r (drop start m) search_size =
        checkSync r (drop start m) search_size (packet_size opt) (header_size opt)"
      by (simp add: probe_def)
    from "1.prems"(2) True obtain ok r1 where
      c: "checkSync r (drop start m) search_size (packet_size opt) (header_size opt) = Inr (ok, r1)"
      by (auto simp: search.simps [of opt r m search_size start] p split: sum.splits)
    show ?thesis
    proof (cases ok)
      case True
      with c \<open>start < end_search\<close> "1.prems"(2) have "r' = r1"
        by (simp add: search.simps [of opt r m search_size start] p)
      with checkSync_cases [OF c] True show ?thesis
        by (auto simp: inputPacketSize_def inputHeaderSize_def)
    next
      case False
      with checkSync_cases [OF c] have "r1 = r" by simp
      with c False \<open>start < end_search\<close> "1.prems"(2)
      have "search opt r m search_size (start + 1) end_search = Inr (s, r')"
        by (simp add: search.simps [of opt r m search_size start] p)
      with "1.IH" [OF \<open>start < end_search\<close>, of "(False, r)" False r] p c False \<open>r1 = r\<close> "1.prems"(1)
      show ?thesis
        by simp
    qed
  qed
qed

text \<open>
  Claim C8: with a packet size given and a header size such that
  \<open>header_size + 188 > packet_size\<close>, the program ends with a failure before it reads or
  writes anything. With a valid pair given, the search calls \<open>checkSync\<close> with that pair
  alone at every position, and a framing it confirms is that pair.
\<close>

theorem pinned_format_only:
  "(packet_size opt > 0 \<and> header_size opt + PKT_SIZE > packet_size opt \<longrightarrow>
      main opt is os = Some (Inr (EXIT_FAILURE, Rejected, is, os))) \<and>
   (packet_size opt > 0 \<and> header_size opt + PKT_SIZE \<le> packet_size opt \<longrightarrow>
      probe opt r buf n = checkSync r buf n (packet_size opt) (header_size opt) \<and>
      (\<forall>m search_size start end_search s r'.
         search opt r m search_size start end_search = Inr (s, r') \<longrightarrow>
         r' = r \<or> (inputPacketSize r' = packet_size opt \<and> inputHeaderSize r' = header_size opt)))"
  by (auto simp: main_def header_too_large_def probe_def dest: search_confirms_pinned)

theorem pinned_format_only_witness:
  "main misconfigured one_packet_stream no_room =
     Some (Inr (EXIT_FAILURE, Rejected, one_packet_stream, no_room)) \<and>
   probe pinned fresh one_good_one_bad 376 = checkSync fresh one_good_one_bad 376 208 20"
proof -
  have a: "packet_size misconfigured > 0 \<and>
           header_size misconfigured + PKT_SIZE > packet_size misconfigured"
    by (simp add: misconfigured_def PKT_SIZE_def)
  have b: "packet_size pinned > 0 \<and> header_size pinned + PKT_SIZE \<le> packet_size pinned"
    by (simp add: pinned_def PKT_SIZE_def)
  from pinned_format_only [of misconfigured one_packet_stream no_room] a
  have "main misconfigured one_packet_stream no_room =
     Some (Inr (EXIT_FAILURE, Rejected, one_packet_stream, no_room))"
    by blast
  moreover from pinned_format_only [of pinned _ _ fresh one_good_one_bad 376] b
  have "probe pinned fresh one_good_one_bad 376 =
        checkSync fresh one_good_one_bad 376 (packet_size pinned) (header_size pinned)"
    by blast
  ultimately show ?thesis
    by (simp add: pinned_def)
qed

section \<open>A stream of valid packets\<close>

lemma valid_packets_Cons [simp]:
  "valid_packets pkt hdr (P # pkts) \<longleftrightarrow>
     length P = pkt \<and> P ! hdr = SYNC_BYTE \<and> valid_packets pkt hdr pkts"
  by (auto simp: valid_packets_def)

lemma valid_packets_Nil [simp]: "valid_packets pkt hdr []"
  by (simp add: valid_packets_def)

lemma valid_packets_take: "valid_packets pkt hdr pkts \<Longrightarrow> valid_packets pkt hdr (take a pkts)"
  by (auto simp: valid_packets_def dest: in_set_takeD)

lemma valid_packets_drop: "valid_packets pkt hdr pkts \<Longrightarrow> valid_packets pkt hdr (drop a pkts)"
  by (auto simp: valid_packets_def dest: in_set_dropD)

lemma length_concat_valid:
  "valid_packets pkt hdr pkts \<Longrightarrow> length (concat pkts) = length pkts * pkt"
  by (induction pkts) simp_all

lemma nth_concat_valid:
  assumes "valid_packets pkt hdr pkts" and "k < length pkts" and "j < pkt"
  shows "concat pkts ! (k * pkt + j) = pkts ! k ! j"
  using assms
proof (induction pkts arbitrary: k)
  case Nil
  then show ?case by simp
next
  case (Cons P pkts)
  show ?case
  proof (cases k)
    case 0
    with Cons.prems show ?thesis
      by (simp add: nth_append)
  next
    case (Suc k')
    with Cons.prems have "concat pkts ! (k' * pkt + j) = pkts ! k' ! j"
      by (intro Cons.IH) simp_all
    with Suc Cons.prems show ?thesis
      by (simp add: nth_append add.assoc)
  qed
qed

lemma writePacket_framed:
  assumes "framed pkt hdr r" and "hdr + PKT_SIZE \<le> pkt" and "length P = pkt"
    and "\<not> obad os" and "PKT_SIZE \<le> room os"
  shows "writePacket r (P @ tl_bytes) os =
         Inr (True, r\<lparr>r_out_size := (r_out_size r + PKT_SIZE) mod 2 ^ 64\<rparr>,
              os\<lparr>written := written os @ bare_packet hdr P, room := room os - PKT_SIZE\<rparr>)"
proof -
  from assms have f: "fetch (P @ tl_bytes) (int (r_in_header_size r) - int (r_out_header_size r))
      (r_out_pkt_size r) = Inr (bare_packet hdr P)"
    by (simp add: fetch_def framed_def bare_packet_def)
  from assms have len: "length (bare_packet hdr P) = PKT_SIZE"
    by (simp add: bare_packet_def)
  with assms have "cout_write os (bare_packet hdr P) =
      (True, os\<lparr>written := written os @ bare_packet hdr P, room := room os - PKT_SIZE\<rparr>)"
    by (simp add: cout_write_def)
  with f assms(1) show ?thesis
    by (simp add: writePacket_def framed_def)
qed

lemma framed_out_size [simp]: "framed pkt hdr (r\<lparr>r_out_size := x\<rparr>) = framed pkt hdr r"
  by (simp add: framed_def)

lemma drain_emits:
  assumes "framed pkt hdr r" and "hdr + PKT_SIZE \<le> pkt"
    and "valid_packets pkt hdr todo"
    and "m = front @ concat todo @ rest" and "length rest < pkt \<or> rest ! hdr \<noteq> SYNC_BYTE"
    and "\<not> obad os" and "PKT_SIZE * length todo \<le> room os"
  shows "\<exists>x. drain r m (length m) (length front) os =
           Inr (length front + length todo * pkt, r\<lparr>r_out_size := x\<rparr>,
                os\<lparr>written := written os @ concat (map (bare_packet hdr) todo),
                   room := room os - PKT_SIZE * length todo\<rparr>)"
  using assms
proof (induction todo arbitrary: front r os)
  case Nil
  have "drain r m (length m) (length front) os = Inr (length front, r, os)"
  proof (cases "length rest < pkt")
    case True
    with Nil have "\<not> int (length front) \<le> int (length m) - int (inputPacketSize r)"
      by (simp add: inputPacketSize_def framed_def)
    then show ?thesis
      by (simp add: drain.simps [of r m "length m" "length front"])
  next
    case False
    with Nil have "hdr < length rest" and "rest ! hdr \<noteq> SYNC_BYTE"
      by (simp_all add: PKT_SIZE_def)
    with Nil have "byte_at m (length front + inputHeaderSize r) = Inr (rest ! hdr)"
      by (simp add: byte_at_def inputHeaderSize_def framed_def nth_append)
    with \<open>rest ! hdr \<noteq> SYNC_BYTE\<close> show ?thesis
      by (simp add: drain.simps [of r m "length m" "length front"])
  qed
  then have "drain r m (length m) (length front) os =
      Inr (length front + length ([]::byte list list) * pkt, r\<lparr>r_out_size := r_out_size r\<rparr>,
           os\<lparr>written := written os @ concat (map (bare_packet hdr) []),
              room := room os - PKT_SIZE * length ([]::byte list list)\<rparr>)"
    by simp
  then show ?case ..
next
  case (Cons P todo)
  from Cons.prems have P: "length P = pkt" "P ! hdr = SYNC_BYTE" and todo: "valid_packets pkt hdr todo"
    by simp_all
  from Cons.prems have hdr: "hdr < pkt" and pos: "0 < pkt"
    by (simp_all add: PKT_SIZE_def)
  from Cons.prems have m: "m = front @ P @ concat todo @ rest"
    by simp
  have guard: "int (length front) \<le> int (length m) - int (inputPacketSize r) \<and> 0 < inputPacketSize r"
    using Cons.prems(1) P pos by (simp add: m inputPacketSize_def framed_def)
  have byte: "byte_at m (length front + inputHeaderSize r) = Inr SYNC_BYTE"
    using Cons.prems(1) P hdr by (simp add: m byte_at_def inputHeaderSize_def framed_def nth_append)
  define r1 where "r1 = r\<lparr>r_out_size := (r_out_size r + PKT_SIZE) mod 2 ^ 64\<rparr>"
  define os1 where "os1 = os\<lparr>written := written os @ bare_packet hdr P, room := room os - PKT_SIZE\<rparr>"
  from Cons.prems have room: "PKT_SIZE \<le> room os"
    by simp
  have w: "writePacket r (drop (length front) m) os = Inr (True, r1, os1)"
    unfolding r1_def os1_def m
    using writePacket_framed [OF Cons.prems(1,2) P(1) Cons.prems(6) room, of "concat todo @ rest"]
    by simp
  have r1: "framed pkt hdr r1" "inputPacketSize r1 = pkt"
    using Cons.prems(1) by (simp_all add: r1_def inputPacketSize_def framed_def)
  have step: "drain r m (length m) (length front) os = drain r1 m (length m) (length front + pkt) os1"
    using guard byte w r1 by (simp add: drain.simps [of r m "length m" "length front"])
  have "\<exists>x. drain r1 m (length m) (length (front @ P)) os1 =
           Inr (length (front @ P) + length todo * pkt, r1\<lparr>r_out_size := x\<rparr>,
                os1\<lparr>written := written os1 @ concat (map (bare_packet hdr) todo),
                    room := room os1 - PKT_SIZE * length todo\<rparr>)"
  proof (rule Cons.IH [OF r1(1) Cons.prems(2) todo _ Cons.prems(5)])
    show "m = (front @ P) @ concat todo @ rest"
      by (simp add: m)
    show "\<not> obad os1"
      using Cons.prems(6) by (simp add: os1_def)
    show "PKT_SIZE * length todo \<le> room os1"
      using Cons.prems(7) by (simp add: os1_def)
  qed
  then obtain x where "drain r1 m (length m) (length front + pkt) os1 =
           Inr (length front + pkt + length todo * pkt, r1\<lparr>r_out_size := x\<rparr>,
                os1\<lparr>written := written os1 @ concat (map (bare_packet hdr) todo),
                    room := room os1 - PKT_SIZE * length todo\<rparr>)"
    using P by auto
  with step have "drain r m (length m) (length front) os =
           Inr (length front + length (P # todo) * pkt, r\<lparr>r_out_size := x\<rparr>,
                os\<lparr>written := written os @ concat (map (bare_packet hdr) (P # todo)),
                   room := room os - PKT_SIZE * length (P # todo)\<rparr>)"
    by (simp add: r1_def os1_def)
  then show ?case ..
qed

lemma split_first_packet:
  assumes "front @ rest = P @ more_bytes" and "length front \<le> length P"
  shows "front @ take (length P - length front) rest = P"
    and "drop (length P - length front) rest = more_bytes"
proof -
  from assms(1) have "take (length P) (front @ rest) = P" and "drop (length P) (front @ rest) = more_bytes"
    by simp_all
  with assms(2) show "front @ take (length P - length front) rest = P"
    and "drop (length P - length front) rest = more_bytes"
    by simp_all
qed

lemma readData_at_end:
  assumes "0 < n" and "pending is = []" and "dst \<le> length m"
  shows "\<exists>is'. readData r is m dst n = Inr (0, r\<lparr>r_status := RS_EOF\<rparr>, is', m) \<and>
               pending is' = [] \<and> fail is'"
proof -
  from assms have c: "\<not> fst (cin_read is n)" "fst (snd (cin_read is n)) = []"
    "pending (snd (snd (cin_read is n))) = []" "fail (snd (snd (cin_read is n)))"
    by (simp_all add: cin_read_def istream_read_def fail_def)
  from assms(3) have "store m dst [] = Inr m"
    by (simp add: store_def)
  with assms(1) c show ?thesis
    by (simp add: readData_eq)
qed

lemma steady_emits:
  assumes "framed pkt hdr (resync e)" and "status (resync e) = RS_OK"
    and "hdr + PKT_SIZE \<le> pkt"
    and "valid_packets pkt hdr todo"
    and "take (sync_pre_size e) (sync_buf e) @ pending (cin e) = concat todo"
    and "sync_pre_size e < pkt" and "pkt \<le> length (sync_buf e)"
    and "good (cin e)" and "\<not> obad (cout e)" and "PKT_SIZE * length todo \<le> room (cout e)"
  shows "\<exists>e'. steady e = Inr e' \<and> status (resync e') = RS_EOF \<and> pending (cin e') = [] \<and>
              cout e' = (cout e)\<lparr>written := written (cout e) @ concat (map (bare_packet hdr) todo),
                                 room := room (cout e) - PKT_SIZE * length todo\<rparr>"
  using assms
proof (induction todo arbitrary: e)
  case Nil
  let ?r = "resync e"
  from Nil.prems have pre: "sync_pre_size e = 0" and empty: "pending (cin e) = []"
    by auto
  from Nil.prems have n: "inputPacketSize ?r - sync_pre_size e = pkt" and pos: "0 < pkt"
    by (simp_all add: pre inputPacketSize_def framed_def)
  obtain is1 where rd: "readData ?r (cin e) (sync_buf e) 0 pkt =
      Inr (0, ?r\<lparr>r_status := RS_EOF\<rparr>, is1, sync_buf e)" and is1: "pending is1 = []"
    using readData_at_end [OF pos empty, of 0 "sync_buf e" ?r] by auto
  let ?e' = "e\<lparr>resync := setStatus (?r\<lparr>r_status := RS_EOF\<rparr>) RS_EOF, sync_buf := sync_buf e,
               cin := is1\<rparr>"
  from rd n pos pre have step: "steady_step e = Inr ?e'"
    by (simp add: steady_step_def)
  have "steady ?e' = Inr ?e'"
    by (rule steady_stops) (simp add: status_def setStatus_def)
  with step Nil.prems(2) have "steady e = Inr ?e'"
    by (simp add: steady_unfold)
  moreover have "status (resync ?e') = RS_EOF" and "pending (cin ?e') = []"
    and "cout ?e' = (cout e)\<lparr>written := written (cout e) @ concat (map (bare_packet hdr) []),
                               room := room (cout e) - PKT_SIZE * length ([]::byte list list)\<rparr>"
    using is1 by (simp_all add: status_def setStatus_def)
  ultimately show ?case by blast
next
  case (Cons P todo)
  let ?r = "resync e" and ?pre = "sync_pre_size e" and ?m = "sync_buf e"
  from Cons.prems have P: "length P = pkt" "P ! hdr = SYNC_BYTE" and todo: "valid_packets pkt hdr todo"
    by simp_all
  from Cons.prems have hdr: "hdr < pkt"
    by (simp add: PKT_SIZE_def)
  from Cons.prems have fr: "framed pkt hdr ?r"
    by simp
  then have sizes: "inputPacketSize ?r = pkt" "inputHeaderSize ?r = hdr"
    by (simp_all add: inputPacketSize_def inputHeaderSize_def framed_def)
  from Cons.prems have lp: "length (take ?pre ?m) = ?pre"
    by simp
  from Cons.prems have cat: "take ?pre ?m @ pending (cin e) = P @ concat todo"
    by simp
  from Cons.prems lp P have le: "length (take ?pre ?m) \<le> length P"
    by simp
  from split_first_packet [OF cat le]
  have whole: "take ?pre ?m @ take (pkt - ?pre) (pending (cin e)) = P"
    and rest: "drop (pkt - ?pre) (pending (cin e)) = concat todo"
    by (simp_all only: lp P)
  have enough: "pkt - ?pre \<le> length (pending (cin e))"
  proof -
    from cat have "length (take ?pre ?m @ pending (cin e)) = length (P @ concat todo)"
      by simp
    with lp P show ?thesis by simp
  qed
  define is1 where "is1 = (cin e)\<lparr>pending := concat todo\<rparr>"
  define m1 where "m1 = P @ drop pkt ?m"
  have inb: "?pre + (pkt - ?pre) \<le> length ?m"
    using Cons.prems(6,7) by simp
  have rd: "readData ?r (cin e) ?m ?pre (pkt - ?pre) = Inr (pkt - ?pre, ?r, is1, m1)"
  proof -
    have "readData ?r (cin e) ?m ?pre (pkt - ?pre) =
        Inr (pkt - ?pre, ?r, (cin e)\<lparr>pending := drop (pkt - ?pre) (pending (cin e))\<rparr>,
             take ?pre ?m @ take (pkt - ?pre) (pending (cin e)) @ drop (?pre + (pkt - ?pre)) ?m)"
      by (rule readData_full [OF Cons.prems(8) enough inb])
    also have "take ?pre ?m @ take (pkt - ?pre) (pending (cin e)) @ drop (?pre + (pkt - ?pre)) ?m =
        (take ?pre ?m @ take (pkt - ?pre) (pending (cin e))) @ drop pkt ?m"
      using Cons.prems(6) by simp
    finally show ?thesis
      by (simp only: whole rest is1_def m1_def)
  qed
  have byte: "byte_at m1 hdr = Inr SYNC_BYTE"
    using P hdr by (simp add: m1_def byte_at_def nth_append)
  define r2 where "r2 = ?r\<lparr>r_out_size := (r_out_size ?r + PKT_SIZE) mod 2 ^ 64\<rparr>"
  define os2 where "os2 = (cout e)\<lparr>written := written (cout e) @ bare_packet hdr P,
                                    room := room (cout e) - PKT_SIZE\<rparr>"
  from Cons.prems have room: "PKT_SIZE \<le> room (cout e)"
    by simp
  have w: "writePacket ?r m1 (cout e) = Inr (True, r2, os2)"
    unfolding m1_def r2_def os2_def
    by (rule writePacket_framed [OF fr Cons.prems(3) P(1) Cons.prems(9) room])
  define e1 where "e1 = e\<lparr>resync := r2, sync_buf := m1, sync_pre_size := 0, cin := is1, cout := os2\<rparr>"
  have step: "steady_step e = Inr e1"
    using Cons.prems(6) rd byte w
    by (simp add: steady_step_def sizes e1_def SYNC_BYTE_def)
  have "\<exists>e'. steady e1 = Inr e' \<and> status (resync e') = RS_EOF \<and> pending (cin e') = [] \<and>
              cout e' = (cout e1)\<lparr>written := written (cout e1) @ concat (map (bare_packet hdr) todo),
                                  room := room (cout e1) - PKT_SIZE * length todo\<rparr>"
  proof (rule Cons.IH [OF _ _ Cons.prems(3) todo])
    show "framed pkt hdr (resync e1)"
      using fr by (simp add: e1_def r2_def)
    show "status (resync e1) = RS_OK"
      using Cons.prems(2) by (simp add: e1_def r2_def status_def)
    show "take (sync_pre_size e1) (sync_buf e1) @ pending (cin e1) = concat todo"
      by (simp add: e1_def is1_def)
    show "sync_pre_size e1 < pkt"
      using hdr by (simp add: e1_def)
    show "pkt \<le> length (sync_buf e1)"
      using P Cons.prems(7) by (simp add: e1_def m1_def)
    show "good (cin e1)"
      using Cons.prems(8) by (simp add: e1_def is1_def good_def)
    show "\<not> obad (cout e1)"
      using Cons.prems(9) by (simp add: e1_def os2_def)
    show "PKT_SIZE * length todo \<le> room (cout e1)"
      using Cons.prems(10) by (simp add: e1_def os2_def)
  qed
  then obtain e' where e': "steady e1 = Inr e'" "status (resync e') = RS_EOF" "pending (cin e') = []"
    "cout e' = (cout e1)\<lparr>written := written (cout e1) @ concat (map (bare_packet hdr) todo),
                          room := room (cout e1) - PKT_SIZE * length todo\<rparr>"
    by blast
  from step Cons.prems(2) e'(1) have "steady e = Inr e'"
    by (simp add: steady_unfold)
  moreover from e'(4)
  have "cout e' = (cout e)\<lparr>written := written (cout e) @ concat (map (bare_packet hdr) (P # todo)),
                             room := room (cout e) - PKT_SIZE * length (P # todo)\<rparr>"
    by (simp add: e1_def os2_def)
  ultimately show ?case
    using e'(2,3) by blast
qed

lemma take_concat_valid:
  assumes "valid_packets pkt hdr pkts" and "a \<le> length pkts"
  shows "take (a * pkt + l) (concat pkts) = concat (take a pkts) @ take l (concat (drop a pkts))"
    and "drop (a * pkt + l) (concat pkts) = drop l (concat (drop a pkts))"
proof -
  have split: "concat pkts = concat (take a pkts) @ concat (drop a pkts)"
    by (simp flip: concat_append)
  from assms have len: "length (concat (take a pkts)) = a * pkt"
    by (simp add: length_concat_valid [OF valid_packets_take])
  show "take (a * pkt + l) (concat pkts) = concat (take a pkts) @ take l (concat (drop a pkts))"
    by (subst split) (simp add: len)
  show "drop (a * pkt + l) (concat pkts) = drop l (concat (drop a pkts))"
    by (subst split) (simp add: len)
qed

lemma compaction_eq:
  assumes "start \<le> sync_end" and "sync_end \<le> length m"
  shows "compaction r m start sync_end =
         Inr ((if sync_end - start \<ge> inputPacketSize r then setStatus r RS_SYNC_LOST else r),
              (if start \<ge> sync_end then m
               else take (sync_end - start) (drop start m) @ drop (sync_end - start) m),
              sync_end - start)"
  using assms by (simp add: compaction_def memmove_front)

lemma probe_confirmed:
  assumes "probe opt r buf n = Inr (True, r')"
  shows "r' = r\<lparr>r_in_pkt_size := inputPacketSize r', r_in_header_size := inputHeaderSize r',
                r_out_pkt_size := (if r_keep_packet_size r then inputPacketSize r' else PKT_SIZE),
                r_out_header_size := (if r_keep_packet_size r then inputHeaderSize r' else 0)\<rparr> \<and>
         inputHeaderSize r' + PKT_SIZE \<le> inputPacketSize r'"
proof -
  have one: "r' = r\<lparr>r_in_pkt_size := inputPacketSize r', r_in_header_size := inputHeaderSize r',
                r_out_pkt_size := (if r_keep_packet_size r then inputPacketSize r' else PKT_SIZE),
                r_out_header_size := (if r_keep_packet_size r then inputHeaderSize r' else 0)\<rparr> \<and>
         inputHeaderSize r' + PKT_SIZE \<le> inputPacketSize r'"
    if "checkSync r buf n p h = Inr (True, r')" for p h
    using checkSync_cases [OF that] by (auto simp: inputPacketSize_def inputHeaderSize_def)
  have same: "r1 = r" if "checkSync r buf n p h = Inr (False, r1)" for p h r1
    using checkSync_cases [OF that] by simp
  show ?thesis
  proof (cases "packet_size opt > 0")
    case True
    with assms show ?thesis
      by (intro one [of "packet_size opt" "header_size opt"]) (simp add: probe_def)
  next
    case False
    then have unpinned: "packet_size opt = 0"
      by simp
    from assms unpinned obtain ok1 r1 where c1: "checkSync r buf n PKT_SIZE 0 = Inr (ok1, r1)"
      by (cases "checkSync r buf n PKT_SIZE 0") (auto simp: probe_def)
    show ?thesis
    proof (cases ok1)
      case True
      with assms unpinned c1 have "r1 = r'"
        by (simp add: probe_def)
      with c1 True show ?thesis
        by (intro one [of PKT_SIZE 0]) simp
    next
      case no1: False
      with c1 have r1: "r1 = r"
        by (intro same [of PKT_SIZE 0]) simp
      from assms unpinned c1 no1 r1 obtain ok2 r2 where
        c2: "checkSync r buf n PKT_RS_SIZE 0 = Inr (ok2, r2)"
        by (cases "checkSync r buf n PKT_RS_SIZE 0") (auto simp: probe_def)
      show ?thesis
      proof (cases ok2)
        case True
        with assms unpinned c1 no1 r1 c2 have "r2 = r'"
          by (simp add: probe_def)
        with c2 True show ?thesis
          by (intro one [of PKT_RS_SIZE 0]) simp
      next
        case no2: False
        with c2 have r2: "r2 = r"
          by (intro same [of PKT_RS_SIZE 0]) simp
        from assms unpinned c1 no1 r1 c2 no2 r2
        have "checkSync r buf n PKT_M2TS_SIZE M2TS_HEADER_SIZE = Inr (True, r')"
          by (simp add: probe_def)
        then show ?thesis
          by (rule one)
      qed
    qed
  qed
qed

lemma search_found_here:
  assumes "start < end_search" and "probe opt r (drop start m) n = Inr (True, r')"
  shows "search opt r m n start end_search = Inr (start, r')"
  using assms by (simp add: search.simps [of opt r m n start])

lemma pass_on_valid_stream:
  assumes nk: "\<not> keep opt"
    and v: "valid_packets pkt hdr pkts"
    and g: "good is" and pend: "pending is = concat pkts"
    and cap1: "sync_size opt + contig_size opt \<le> length pkts * pkt"
    and cap2: "pkt \<le> sync_size opt + contig_size opt"
    and sel: "probe opt (reset (new_Resynchronizer False))
                (take (sync_size opt + contig_size opt) (concat pkts)) (contig_size opt) =
              Inr (True, r2)"
    and sizes: "inputPacketSize r2 = pkt" "inputHeaderSize r2 = hdr"
    and os: "\<not> obad os" "PKT_SIZE * length pkts \<le> room os"
  shows "\<exists>e'. pass opt \<lparr>resync = new_Resynchronizer (keep opt),
                         sync_buf = replicate (sync_size opt + contig_size opt) 0,
                         sync_pre_size = 0, cin = is, cout = os\<rparr> = Inr (False, e') \<and>
              status (resync e') = RS_EOF \<and> pending (cin e') = [] \<and>
              cout e' = os\<lparr>written := written os @ concat (map (bare_packet hdr) pkts),
                           room := room os - PKT_SIZE * length pkts\<rparr>"
proof -
  define cap where "cap = sync_size opt + contig_size opt"
  define a where "a = cap div pkt"
  define l where "l = cap mod pkt"
  define X where "X = concat (drop a pkts)"
  define mem1 where "mem1 = take cap (concat pkts)"
  define r1 where "r1 = reset (new_Resynchronizer False)"
  define is1 where "is1 = is\<lparr>pending := drop cap (concat pkts)\<rparr>"
  note pc = probe_confirmed [OF sel]
  from pc sizes have hp: "hdr + PKT_SIZE \<le> pkt"
    by simp
  then have pos: "0 < pkt"
    by (simp add: PKT_SIZE_def)
  have cap: "cap = a * pkt + l" and l: "l < pkt"
    using pos by (simp_all add: a_def l_def)
  have lenS: "length (concat pkts) = length pkts * pkt"
    by (rule length_concat_valid [OF v])
  from cap1 have capS: "cap \<le> length pkts * pkt"
    by (simp add: cap_def)
  have a: "a \<le> length pkts"
  proof -
    have "a * pkt \<le> cap"
      by (simp add: cap)
    with capS have "a * pkt \<le> length pkts * pkt"
      by linarith
    with pos show ?thesis
      by (simp only: mult_le_cancel2)
  qed
  have lenX: "length X = (length pkts - a) * pkt"
    unfolding X_def by (simp add: length_concat_valid [OF valid_packets_drop [OF v]])
  have lX: "l \<le> length X"
  proof -
    have "a * pkt + l \<le> length pkts * pkt"
      using capS by (simp only: cap)
    then show ?thesis
      by (simp add: lenX diff_mult_distrib)
  qed
  have mem1: "mem1 = [] @ concat (take a pkts) @ take l X"
    unfolding mem1_def cap X_def by (simp add: take_concat_valid(1) [OF v a])
  have len1: "length mem1 = cap"
    unfolding mem1_def using capS lenS by simp
  have lenA: "length (concat (take a pkts)) = a * pkt"
    using a by (simp add: length_concat_valid [OF valid_packets_take [OF v]])
  have pend1: "pending is1 = drop l X"
    unfolding is1_def cap X_def by (simp add: take_concat_valid(2) [OF v a])
  \<comment> \<open>the first read fills the buffer\<close>
  have rd: "readData r1 is (replicate cap 0) 0 cap = Inr (cap, r1, is1, mem1)"
  proof -
    have "readData r1 is (replicate cap 0) 0 cap =
        Inr (cap, r1, is\<lparr>pending := drop cap (pending is)\<rparr>,
             take 0 (replicate cap 0) @ take cap (pending is) @ drop (0 + cap) (replicate cap 0))"
      by (rule readData_full [OF g]) (simp_all add: pend lenS capS)
    then show ?thesis
      by (simp add: pend is1_def mem1_def)
  qed
  \<comment> \<open>the search stops at offset 0\<close>
  have ss: "min (contig_size opt) cap = contig_size opt"
    by (simp add: cap_def)
  have se: "search opt r1 mem1 (contig_size opt) 0 (cap - contig_size opt + 1) = Inr (0, r2)"
    using sel by (intro search_found_here) (simp_all add: r1_def mem1_def cap_def)
  from pc sizes have r2: "r2 = r1\<lparr>r_in_pkt_size := pkt, r_in_header_size := hdr,
      r_out_pkt_size := PKT_SIZE, r_out_header_size := 0\<rparr>"
    by (simp add: r1_def reset_def new_Resynchronizer_def)
  have fr2: "framed pkt hdr r2"
    by (simp add: r2 framed_def)
  have nz: "inputPacketSize r2 \<noteq> 0"
    using pos sizes by simp
  \<comment> \<open>the packets that are whole in the buffer are written\<close>
  define os3 where "os3 = os\<lparr>written := written os @ concat (map (bare_packet hdr) (take a pkts)),
                            room := room os - PKT_SIZE * a\<rparr>"
  have roomA: "PKT_SIZE * length (take a pkts) \<le> room os"
  proof -
    have "PKT_SIZE * a \<le> PKT_SIZE * length pkts"
      using a by (rule mult_le_mono2)
    with os(2) have "PKT_SIZE * a \<le> room os"
      by linarith
    with a show ?thesis by simp
  qed
  obtain x where dr: "drain r2 mem1 cap 0 os = Inr (a * pkt, r2\<lparr>r_out_size := x\<rparr>, os3)"
  proof -
    from l lX have "length (take l X) < pkt \<or> take l X ! hdr \<noteq> SYNC_BYTE"
      by simp
    from drain_emits [OF fr2 hp valid_packets_take [OF v] mem1 this os(1) roomA]
    obtain x where "drain r2 mem1 (length mem1) (length ([]::byte list)) os =
        Inr (length ([]::byte list) + length (take a pkts) * pkt, r2\<lparr>r_out_size := x\<rparr>,
             os\<lparr>written := written os @ concat (map (bare_packet hdr) (take a pkts)),
                room := room os - PKT_SIZE * length (take a pkts)\<rparr>)"
      by auto
    with a have "drain r2 mem1 cap 0 os = Inr (a * pkt, r2\<lparr>r_out_size := x\<rparr>, os3)"
      by (simp add: len1 os3_def)
    then show ?thesis ..
  qed
  define r3 where "r3 = r2\<lparr>r_out_size := x\<rparr>"
  have st3: "status r3 = RS_OK" and fr3: "framed pkt hdr r3" and ip3: "inputPacketSize r3 = pkt"
    using fr2 by (simp_all add: r3_def r2 r1_def reset_def status_def inputPacketSize_def)
  \<comment> \<open>the bytes left are moved to the front\<close>
  define m2 where "m2 = (if a * pkt \<ge> cap then mem1 else take l (drop (a * pkt) mem1) @ drop l mem1)"
  have co: "compaction r3 mem1 (a * pkt) cap = Inr (r3, m2, l)"
  proof -
    have "compaction r3 mem1 (a * pkt) cap =
        Inr ((if cap - a * pkt \<ge> inputPacketSize r3 then setStatus r3 RS_SYNC_LOST else r3),
             (if a * pkt \<ge> cap then mem1
              else take (cap - a * pkt) (drop (a * pkt) mem1) @ drop (cap - a * pkt) mem1),
             cap - a * pkt)"
      by (rule compaction_eq) (simp_all add: cap len1)
    moreover have "cap - a * pkt = l"
      by (simp add: cap)
    ultimately show ?thesis
      using l by (simp add: ip3 m2_def)
  qed
  have capl: "cap - a * pkt = l" "l \<le> cap"
    by (simp_all add: cap)
  have len2: "length m2 = cap"
    using len1 capl by (simp add: m2_def)
  have dropA: "drop (a * pkt) mem1 = take l X"
    by (simp add: mem1 lenA)
  have front2: "take l m2 = take l X"
  proof (cases "a * pkt \<ge> cap")
    case True
    with cap have "l = 0" by simp
    then show ?thesis by simp
  next
    case False
    then show ?thesis
      using lX by (simp add: m2_def dropA)
  qed
  \<comment> \<open>the rest of the input is read packet by packet\<close>
  define e1 where "e1 = \<lparr>resync = r3, sync_buf = m2, sync_pre_size = l, cin = is1, cout = os3\<rparr>"
  have "\<exists>e'. steady e1 = Inr e' \<and> status (resync e') = RS_EOF \<and> pending (cin e') = [] \<and>
              cout e' = (cout e1)\<lparr>written := written (cout e1) @
                                    concat (map (bare_packet hdr) (drop a pkts)),
                                  room := room (cout e1) - PKT_SIZE * length (drop a pkts)\<rparr>"
  proof (rule steady_emits [OF _ _ hp valid_packets_drop [OF v]])
    show "framed pkt hdr (resync e1)" and "status (resync e1) = RS_OK"
      using fr3 st3 by (simp_all add: e1_def)
    show "take (sync_pre_size e1) (sync_buf e1) @ pending (cin e1) = concat (drop a pkts)"
      by (simp add: e1_def front2 pend1 X_def)
    show "sync_pre_size e1 < pkt"
      using l by (simp add: e1_def)
    show "pkt \<le> length (sync_buf e1)"
      using cap2 by (simp add: e1_def len2 cap_def)
    show "good (cin e1)"
      using g by (simp add: e1_def is1_def good_def)
    show "\<not> obad (cout e1)"
      using os(1) by (simp add: e1_def os3_def)
    show "PKT_SIZE * length (drop a pkts) \<le> room (cout e1)"
      using os(2) a by (simp add: e1_def os3_def diff_mult_distrib2)
  qed
  then obtain e' where e': "steady e1 = Inr e'" "status (resync e') = RS_EOF"
    "pending (cin e') = []"
    "cout e' = os3\<lparr>written := written os3 @ concat (map (bare_packet hdr) (drop a pkts)),
                    room := room os3 - PKT_SIZE * length (drop a pkts)\<rparr>"
    by (auto simp: e1_def)
  have out: "concat (map (bare_packet hdr) (take a pkts)) @ concat (map (bare_packet hdr) (drop a pkts)) =
      concat (map (bare_packet hdr) pkts)"
    by (simp flip: concat_append map_append)
  have room: "PKT_SIZE * a + PKT_SIZE * (length pkts - a) = PKT_SIZE * length pkts"
    using a by (simp flip: distrib_left)
  from e'(4) have cout: "cout e' = os\<lparr>written := written os @ concat (map (bare_packet hdr) pkts),
                                        room := room os - PKT_SIZE * length pkts\<rparr>"
    by (simp add: os3_def out room)
  have "pass opt \<lparr>resync = new_Resynchronizer (keep opt), sync_buf = replicate cap 0,
                  sync_pre_size = 0, cin = is, cout = os\<rparr> = Inr (False, e')"
    using nk rd se nz dr st3 co e'(1)
    by (simp add: pass_def ss r1_def r3_def e1_def)
  with e'(2,3) cout show ?thesis
    unfolding cap_def by blast
qed

lemma stride_in_region:
  "int (0 + k * pkt) < int n - int pkt + 1 \<longleftrightarrow> k * pkt + pkt \<le> n"
proof -
  have "int (0 + k * pkt) < int n - int pkt + 1 \<longleftrightarrow> int (k * pkt + pkt) \<le> int n"
    by auto
  then show ?thesis
    by (simp only: of_nat_le_iff)
qed

lemma checkSync_confirms:
  assumes "hdr + PKT_SIZE \<le> pkt" and "n \<le> length buf"
    and "\<forall>k. k * pkt + pkt \<le> n \<longrightarrow> buf ! (k * pkt + hdr) = SYNC_BYTE"
  shows "checkSync r buf n pkt hdr =
         Inr (True, r\<lparr>r_in_pkt_size := pkt, r_in_header_size := hdr,
                      r_out_pkt_size := (if r_keep_packet_size r then pkt else PKT_SIZE),
                      r_out_header_size := (if r_keep_packet_size r then hdr else 0)\<rparr>)"
proof -
  from assms(1) have pos: "0 < pkt" and hdr: "hdr < pkt"
    by (simp_all add: PKT_SIZE_def)
  from assms(2) have e: "int n - int pkt + 1 \<le> int (length buf) - int pkt + 1"
    by simp
  have "scan buf hdr pkt 0 (int n - int pkt + 1) = Inr True"
    unfolding scan_all_strides [OF pos hdr e, of 0] stride_in_region
    using assms(3) by simp
  with assms(1) show ?thesis
    by (simp add: checkSync_def)
qed

lemma valid_stream_strides:
  assumes "valid_packets pkt hdr pkts" and "hdr < pkt"
    and "k * pkt + pkt \<le> n" and "n \<le> cap" and "cap \<le> length pkts * pkt"
  shows "take cap (concat pkts) ! (k * pkt + hdr) = SYNC_BYTE"
proof -
  from assms have "Suc k * pkt \<le> length pkts * pkt"
    by simp
  with assms(2) have k: "k < length pkts"
    by (simp only: mult_le_cancel2) simp
  from assms have "k * pkt + hdr < cap"
    by linarith
  then have "take cap (concat pkts) ! (k * pkt + hdr) = concat pkts ! (k * pkt + hdr)"
    by simp
  also have "\<dots> = pkts ! k ! hdr"
    by (rule nth_concat_valid [OF assms(1) k assms(2)])
  also from assms(1) k have "\<dots> = SYNC_BYTE"
    by (simp add: valid_packets_def)
  finally show ?thesis .
qed

lemma probe_standard_on_valid:
  assumes "packet_size opt = 0" and "valid_packets PKT_SIZE 0 pkts"
    and "n \<le> cap" and "cap \<le> length pkts * PKT_SIZE"
  shows "probe opt r (take cap (concat pkts)) n =
         Inr (True, r\<lparr>r_in_pkt_size := PKT_SIZE, r_in_header_size := 0,
                      r_out_pkt_size := (if r_keep_packet_size r then PKT_SIZE else PKT_SIZE),
                      r_out_header_size := (if r_keep_packet_size r then 0 else 0)\<rparr>)"
proof -
  have len: "n \<le> length (take cap (concat pkts))"
    using assms by (simp add: length_concat_valid [OF assms(2)])
  have "checkSync r (take cap (concat pkts)) n PKT_SIZE 0 =
         Inr (True, r\<lparr>r_in_pkt_size := PKT_SIZE, r_in_header_size := 0,
                      r_out_pkt_size := (if r_keep_packet_size r then PKT_SIZE else PKT_SIZE),
                      r_out_header_size := (if r_keep_packet_size r then 0 else 0)\<rparr>)"
  proof (rule checkSync_confirms [OF _ len])
    show "0 + PKT_SIZE \<le> PKT_SIZE"
      by simp
    show "\<forall>k. k * PKT_SIZE + PKT_SIZE \<le> n \<longrightarrow>
              take cap (concat pkts) ! (k * PKT_SIZE + 0) = SYNC_BYTE"
      using valid_stream_strides [OF assms(2) _ _ assms(3,4)]
      by (simp add: PKT_SIZE_def)
  qed
  with assms(1) show ?thesis
    by (simp add: probe_def)
qed

lemma probe_pinned_on_valid:
  assumes "packet_size opt = pkt" and "header_size opt = hdr" and "hdr + PKT_SIZE \<le> pkt"
    and "valid_packets pkt hdr pkts"
    and "n \<le> cap" and "cap \<le> length pkts * pkt"
  shows "probe opt r (take cap (concat pkts)) n =
         Inr (True, r\<lparr>r_in_pkt_size := pkt, r_in_header_size := hdr,
                      r_out_pkt_size := (if r_keep_packet_size r then pkt else PKT_SIZE),
                      r_out_header_size := (if r_keep_packet_size r then hdr else 0)\<rparr>)"
proof -
  from assms(3) have pos: "0 < pkt" and hdr: "hdr < pkt"
    by (simp_all add: PKT_SIZE_def)
  have len: "n \<le> length (take cap (concat pkts))"
    using assms by (simp add: length_concat_valid [OF assms(4)])
  have "checkSync r (take cap (concat pkts)) n pkt hdr =
         Inr (True, r\<lparr>r_in_pkt_size := pkt, r_in_header_size := hdr,
                      r_out_pkt_size := (if r_keep_packet_size r then pkt else PKT_SIZE),
                      r_out_header_size := (if r_keep_packet_size r then hdr else 0)\<rparr>)"
  proof (rule checkSync_confirms [OF assms(3) len])
    show "\<forall>k. k * pkt + pkt \<le> n \<longrightarrow> take cap (concat pkts) ! (k * pkt + hdr) = SYNC_BYTE"
      using valid_stream_strides [OF assms(4) hdr _ assms(5,6)] by blast
  qed
  with assms(1,2) pos show ?thesis
    by (simp add: probe_def)
qed

lemma probe_not_misconfigured:
  assumes "probe opt r buf n = Inr (ok, r')"
  shows "\<not> header_too_large opt"
  using assms
  by (auto simp: header_too_large_def probe_def checkSync_def split: if_splits)

lemma checkSync_eq:
  assumes "hdr + PKT_SIZE \<le> pkt" and "n \<le> length buf"
  shows "checkSync r buf n pkt hdr =
         (if all_strides buf n pkt hdr
          then Inr (True, r\<lparr>r_in_pkt_size := pkt, r_in_header_size := hdr,
                       r_out_pkt_size := (if r_keep_packet_size r then pkt else PKT_SIZE),
                       r_out_header_size := (if r_keep_packet_size r then hdr else 0)\<rparr>)
          else Inr (False, r))"
proof -
  from assms(1) have pos: "0 < pkt" and hdr: "hdr < pkt"
    by (simp_all add: PKT_SIZE_def)
  from assms(2) have e: "int n - int pkt + 1 \<le> int (length buf) - int pkt + 1"
    by simp
  have "scan buf hdr pkt 0 (int n - int pkt + 1) = Inr (all_strides buf n pkt hdr)"
    unfolding scan_all_strides [OF pos hdr e, of 0] stride_in_region all_strides_def
    by simp
  with assms(1) show ?thesis
    by (simp add: checkSync_def)
qed

lemma all_strides_take:
  assumes "hdr < pkt" and "n \<le> cap"
  shows "all_strides (take cap buf) n pkt hdr = all_strides buf n pkt hdr"
proof -
  have "take cap buf ! (k * pkt + hdr) = buf ! (k * pkt + hdr)" if "k * pkt + pkt \<le> n" for k
  proof -
    from that assms have "k * pkt + hdr < cap"
      by linarith
    then show ?thesis
      by simp
  qed
  then show ?thesis
    by (simp add: all_strides_def)
qed

lemma all_strides_valid:
  assumes "valid_packets pkt hdr pkts" and "hdr < pkt" and "n \<le> length pkts * pkt"
  shows "all_strides (concat pkts) n pkt hdr"
  unfolding all_strides_def
proof (intro allI impI)
  fix k assume "k * pkt + pkt \<le> n"
  from valid_stream_strides [OF assms(1,2) this assms(3) order_refl]
  show "concat pkts ! (k * pkt + hdr) = SYNC_BYTE"
    by (simp add: length_concat_valid [OF assms(1)])
qed

lemma probe_unpinned_eq:
  assumes "packet_size opt = 0" and "n \<le> length buf" and "\<not> r_keep_packet_size r"
  shows "probe opt r buf n =
         (if all_strides buf n PKT_SIZE 0
          then Inr (True, r\<lparr>r_in_pkt_size := PKT_SIZE, r_in_header_size := 0,
                       r_out_pkt_size := PKT_SIZE, r_out_header_size := 0\<rparr>)
          else if all_strides buf n PKT_RS_SIZE 0
          then Inr (True, r\<lparr>r_in_pkt_size := PKT_RS_SIZE, r_in_header_size := 0,
                       r_out_pkt_size := PKT_SIZE, r_out_header_size := 0\<rparr>)
          else if all_strides buf n PKT_M2TS_SIZE M2TS_HEADER_SIZE
          then Inr (True, r\<lparr>r_in_pkt_size := PKT_M2TS_SIZE, r_in_header_size := M2TS_HEADER_SIZE,
                       r_out_pkt_size := PKT_SIZE, r_out_header_size := 0\<rparr>)
          else Inr (False, r))"
proof -
  have a: "0 + PKT_SIZE \<le> PKT_SIZE" and b: "0 + PKT_SIZE \<le> PKT_RS_SIZE"
    and c: "M2TS_HEADER_SIZE + PKT_SIZE \<le> PKT_M2TS_SIZE"
    by (simp_all add: PKT_SIZE_def PKT_RS_SIZE_def PKT_M2TS_SIZE_def M2TS_HEADER_SIZE_def)
  show ?thesis
    using assms(1,3)
    by (simp add: probe_def checkSync_eq [OF a assms(2)] checkSync_eq [OF b assms(2)]
        checkSync_eq [OF c assms(2)])
qed

lemma main_on_valid_stream:
  assumes "\<not> keep opt"
    and "valid_packets pkt hdr pkts"
    and "good is" and "pending is = concat pkts"
    and "sync_size opt + contig_size opt \<le> length pkts * pkt"
    and "pkt \<le> sync_size opt + contig_size opt"
    and "probe opt (reset (new_Resynchronizer False))
           (take (sync_size opt + contig_size opt) (concat pkts)) (contig_size opt) =
         Inr (True, r2)"
    and "inputPacketSize r2 = pkt" and "inputHeaderSize r2 = hdr"
    and "\<not> obad os" and "PKT_SIZE * length pkts \<le> room os"
  shows "run_summary (main opt is os) =
           Some (EXIT_SUCCESS, Some RS_EOF,
                 written os @ concat (map (bare_packet hdr) pkts)) \<and>
         (\<forall>P \<in> set pkts. length (bare_packet hdr P) = PKT_SIZE) \<and>
         (\<exists>r' is'. main opt is os =
            Some (Inr (EXIT_SUCCESS, Completed r', is',
                       os\<lparr>written := written os @ concat (map (bare_packet hdr) pkts),
                          room := room os - PKT_SIZE * length pkts\<rparr>)) \<and>
            status r' = RS_EOF \<and> pending is' = [])"
proof -
  let ?e0 = "\<lparr>resync = new_Resynchronizer (keep opt),
              sync_buf = replicate (sync_size opt + contig_size opt) 0,
              sync_pre_size = 0, cin = is, cout = os\<rparr>"
  let ?os' = "os\<lparr>written := written os @ concat (map (bare_packet hdr) pkts),
                 room := room os - PKT_SIZE * length pkts\<rparr>"
  from pass_on_valid_stream [OF assms]
  obtain e' where p: "pass opt ?e0 = Inr (False, e')" and st: "status (resync e') = RS_EOF"
    and pe: "pending (cin e') = []" and co: "cout e' = ?os'"
    by blast
  from p st have "resync_loop opt ?e0 = Some (Inr e')"
    by (simp add: resync_loop.simps [of opt ?e0])
  with probe_not_misconfigured [OF assms(7)] st co
  have m: "main opt is os = Some (Inr (EXIT_SUCCESS, Completed (resync e'), cin e', ?os'))"
    by (simp add: main_def)
  from probe_confirmed [OF assms(7)] assms(8,9) have "hdr + PKT_SIZE \<le> pkt"
    by simp
  with assms(2) have "\<forall>P \<in> set pkts. length (bare_packet hdr P) = PKT_SIZE"
    by (auto simp: bare_packet_def valid_packets_def)
  moreover from m st have "run_summary (main opt is os) =
      Some (EXIT_SUCCESS, Some RS_EOF, written os @ concat (map (bare_packet hdr) pkts))"
    by (simp add: run_summary_def)
  ultimately show ?thesis
    using m st pe by blast
qed

text \<open>
  Claim C4, as the code has it. The input is \<open>N\<close> valid packets of the framing
  \<open>pkt\<close>/\<open>hdr\<close> and nothing else, with room for 188 bytes after the header; the packet
  size is not kept; the output accepts \<open>N\<close> packets. Two conditions are added to the
  claim. The input is at least as long as the synchronization buffer, and a packet fits
  in the buffer. And the check at offset 0 settles on the framing \<open>pkt\<close>/\<open>hdr\<close>: the
  framing is given on the command line, or it is the 188-byte framing, or it is the
  204-byte framing and the marker does not stand at every 188-byte stride of the first
  window, or it is the 192-byte framing and the marker stands neither at every 188-byte
  stride nor at every 204-byte stride of the first window. Then the program writes the
  \<open>N\<close> packets, each one the 188 bytes after the header of the input packet, ends with
  the status \<open>RS_EOF\<close> at the end of the input, and exits with success.
\<close>

theorem valid_stream_reframed:
  assumes "\<not> keep opt" and "hdr + PKT_SIZE \<le> pkt"
    and "valid_packets pkt hdr pkts"
    and "good is" and "pending is = concat pkts"
    and "sync_size opt + contig_size opt \<le> length pkts * pkt"
    and "pkt \<le> sync_size opt + contig_size opt"
    and "packet_size opt = pkt \<and> header_size opt = hdr \<or>
         packet_size opt = 0 \<and>
           (pkt = PKT_SIZE \<and> hdr = 0 \<or>
            pkt = PKT_RS_SIZE \<and> hdr = 0 \<and>
              \<not> all_strides (concat pkts) (contig_size opt) PKT_SIZE 0 \<or>
            pkt = PKT_M2TS_SIZE \<and> hdr = M2TS_HEADER_SIZE \<and>
              \<not> all_strides (concat pkts) (contig_size opt) PKT_SIZE 0 \<and>
              \<not> all_strides (concat pkts) (contig_size opt) PKT_RS_SIZE 0)"
    and "\<not> obad os" and "PKT_SIZE * length pkts \<le> room os"
  shows "run_summary (main opt is os) =
           Some (EXIT_SUCCESS, Some RS_EOF,
                 written os @ concat (map (bare_packet hdr) pkts)) \<and>
         (\<forall>P \<in> set pkts. length (bare_packet hdr P) = PKT_SIZE) \<and>
         (\<exists>r' is'. main opt is os =
            Some (Inr (EXIT_SUCCESS, Completed r', is',
                       os\<lparr>written := written os @ concat (map (bare_packet hdr) pkts),
                          room := room os - PKT_SIZE * length pkts\<rparr>)) \<and>
            status r' = RS_EOF \<and> pending is' = [])"
proof -
  let ?r = "reset (new_Resynchronizer False)"
  let ?cap = "sync_size opt + contig_size opt"
  let ?n = "contig_size opt"
  let ?W = "take ?cap (concat pkts)"
  from assms(2) have hdr: "hdr < pkt"
    by (simp add: PKT_SIZE_def)
  have n: "?n \<le> ?cap"
    by simp
  from assms(6) have len: "?n \<le> length ?W"
    by (simp add: length_concat_valid [OF assms(3)])
  have nk: "\<not> r_keep_packet_size ?r"
    by (simp add: reset_def new_Resynchronizer_def)
  from assms(6) have own: "all_strides (concat pkts) ?n pkt hdr"
    by (intro all_strides_valid [OF assms(3) hdr]) simp
  have tk: "all_strides ?W ?n p h = all_strides (concat pkts) ?n p h" if "h < p" for p h
    by (rule all_strides_take [OF that n])
  have t188: "all_strides ?W ?n PKT_SIZE 0 = all_strides (concat pkts) ?n PKT_SIZE 0"
    and t204: "all_strides ?W ?n PKT_RS_SIZE 0 = all_strides (concat pkts) ?n PKT_RS_SIZE 0"
    and t192: "all_strides ?W ?n PKT_M2TS_SIZE M2TS_HEADER_SIZE =
               all_strides (concat pkts) ?n PKT_M2TS_SIZE M2TS_HEADER_SIZE"
    by (simp_all add: tk PKT_SIZE_def PKT_RS_SIZE_def PKT_M2TS_SIZE_def M2TS_HEADER_SIZE_def)
  have "\<exists>r2. probe opt ?r ?W ?n = Inr (True, r2) \<and>
             inputPacketSize r2 = pkt \<and> inputHeaderSize r2 = hdr"
  proof (cases "packet_size opt = pkt \<and> header_size opt = hdr")
    case True
    then have "packet_size opt = pkt" and "header_size opt = hdr"
      by simp_all
    from probe_pinned_on_valid [OF this assms(2,3) n assms(6), of ?r]
    show ?thesis
      by (simp add: inputPacketSize_def inputHeaderSize_def)
  next
    case False
    with assms(8) have ps: "packet_size opt = 0"
      and sel: "pkt = PKT_SIZE \<and> hdr = 0 \<or>
            pkt = PKT_RS_SIZE \<and> hdr = 0 \<and>
              \<not> all_strides (concat pkts) ?n PKT_SIZE 0 \<or>
            pkt = PKT_M2TS_SIZE \<and> hdr = M2TS_HEADER_SIZE \<and>
              \<not> all_strides (concat pkts) ?n PKT_SIZE 0 \<and>
              \<not> all_strides (concat pkts) ?n PKT_RS_SIZE 0"
      by blast+
    note eq = probe_unpinned_eq [OF ps len nk, unfolded t188 t204 t192]
    from sel own show ?thesis
      by (auto simp: eq inputPacketSize_def inputHeaderSize_def)
  qed
  then obtain r2 where pr: "probe opt ?r ?W ?n = Inr (True, r2)"
    and ip: "inputPacketSize r2 = pkt" and ih: "inputHeaderSize r2 = hdr"
    by blast
  from main_on_valid_stream [OF assms(1,3,4,5,6,7) pr ip ih assms(9,10)]
  show ?thesis .
qed

lemma good_packets_valid: "valid_packets PKT_SIZE 0 (replicate n good_packet)"
  by (simp add: valid_packets_def good_packet_def PKT_SIZE_def)

lemma bare_good_packet: "bare_packet 0 good_packet = good_packet"
  by (simp add: bare_packet_def good_packet_def PKT_SIZE_def)

theorem valid_stream_reframed_witness:
  "run_summary (main standard (input_of (concat (replicate 8 good_packet))) spacious) =
     Some (EXIT_SUCCESS, Some RS_EOF, concat (replicate 8 good_packet))"
proof -
  let ?pkts = "replicate 8 good_packet"
  have h1: "\<not> keep standard"
    by (simp add: standard_def)
  have h2: "0 + PKT_SIZE \<le> PKT_SIZE"
    by simp
  have h3: "valid_packets PKT_SIZE 0 ?pkts"
    by (rule good_packets_valid)
  have h4: "good (input_of (concat ?pkts))"
    by (simp add: good_def input_of_def)
  have h5: "pending (input_of (concat ?pkts)) = concat ?pkts"
    by (simp add: input_of_def)
  have h6: "sync_size standard + contig_size standard \<le> length ?pkts * PKT_SIZE"
    by (simp add: standard_def PKT_SIZE_def)
  have h7: "PKT_SIZE \<le> sync_size standard + contig_size standard"
    by (simp add: standard_def PKT_SIZE_def)
  have h8: "packet_size standard = PKT_SIZE \<and> header_size standard = 0 \<or>
         packet_size standard = 0 \<and>
           (PKT_SIZE = PKT_SIZE \<and> (0::nat) = 0 \<or>
            PKT_SIZE = PKT_RS_SIZE \<and> (0::nat) = 0 \<and>
              \<not> all_strides (concat ?pkts) (contig_size standard) PKT_SIZE 0 \<or>
            PKT_SIZE = PKT_M2TS_SIZE \<and> (0::nat) = M2TS_HEADER_SIZE \<and>
              \<not> all_strides (concat ?pkts) (contig_size standard) PKT_SIZE 0 \<and>
              \<not> all_strides (concat ?pkts) (contig_size standard) PKT_RS_SIZE 0)"
    by (simp add: standard_def)
  have h9: "\<not> obad spacious" and h10: "PKT_SIZE * length ?pkts \<le> room spacious"
    by (simp_all add: spacious_def PKT_SIZE_def)
  from valid_stream_reframed [OF h1 h2 h3 h4 h5 h6 h7 h8 h9 h10]
  have "run_summary (main standard (input_of (concat ?pkts)) spacious) =
      Some (EXIT_SUCCESS, Some RS_EOF, written spacious @ concat (map (bare_packet 0) ?pkts))"
    by blast
  then show ?thesis
    by (simp add: spacious_def bare_good_packet)
qed

lemma resync_loop_ends:
  assumes "pass opt e = Inr (left, e')"
    and "left \<or> status (resync e') = RS_EOF \<or> status (resync e') = RS_ERROR \<or>
         (status (resync e') = RS_SYNC_LOST \<and> \<not> cont_sync opt)"
  shows "resync_loop opt e = Some (Inr e')"
  using assms by (auto simp: resync_loop.simps [of opt e])

lemma stray_packets_valid: "valid_packets PKT_RS_SIZE 0 (replicate n stray_packet)"
  by (simp add: valid_packets_def stray_packet_def PKT_RS_SIZE_def)

lemma stray_stream_bytes:
  "length stray_stream = 1428"
  "stray_stream ! 0 = SYNC_BYTE"
  "stray_stream ! 188 = SYNC_BYTE"
  "stray_stream ! 376 \<noteq> SYNC_BYTE"
proof -
  note v = stray_packets_valid [of 7]
  show "length stray_stream = 1428"
    unfolding stray_stream_def length_concat_valid [OF v] by (simp add: PKT_RS_SIZE_def)
  have "stray_stream ! (0 * PKT_RS_SIZE + 0) = replicate 7 stray_packet ! 0 ! 0"
    unfolding stray_stream_def by (rule nth_concat_valid [OF v]) (simp_all add: PKT_RS_SIZE_def)
  then show "stray_stream ! 0 = SYNC_BYTE"
    by (simp add: stray_packet_def)
  have "stray_stream ! (0 * PKT_RS_SIZE + 188) = replicate 7 stray_packet ! 0 ! 188"
    unfolding stray_stream_def by (rule nth_concat_valid [OF v]) (simp_all add: PKT_RS_SIZE_def)
  then show "stray_stream ! 188 = SYNC_BYTE"
    by (simp add: stray_packet_def nth_append)
  have "stray_stream ! (1 * PKT_RS_SIZE + 172) = replicate 7 stray_packet ! 1 ! 172"
    unfolding stray_stream_def by (rule nth_concat_valid [OF v]) (simp_all add: PKT_RS_SIZE_def)
  then show "stray_stream ! 376 \<noteq> SYNC_BYTE"
    by (simp add: stray_packet_def nth_append PKT_RS_SIZE_def SYNC_BYTE_def)
qed

text \<open>
  Claim C4 as it is stated fails by the order of the search. The input is seven valid
  204-byte packets whose trailers begin with the byte 0x47. The 188-byte framing is
  tried first and passes the check on the first 376 bytes; two blocks of 188 bytes are
  written, the second not a packet of the input; then the marker is missing and the run
  ends with the status \<open>RS_SYNC_LOST\<close> and a failure.
\<close>

theorem stray_marker_counterexample:
  "declared_bounds standard \<and> \<not> keep standard \<and>
   valid_packets PKT_RS_SIZE 0 (replicate 7 stray_packet) \<and>
   run_summary (main standard (input_of (concat (replicate 7 stray_packet))) spacious) =
     Some (EXIT_FAILURE, Some RS_SYNC_LOST, take 376 (concat (replicate 7 stray_packet)))"
proof -
  define mem1 where "mem1 = take 1400 stray_stream"
  define A where "A = take 188 mem1"
  define B where "B = take 188 (drop 188 mem1)"
  define rest where "rest = drop 376 mem1"
  define r1 where "r1 = reset (new_Resynchronizer False)"
  define r2 where "r2 = r1\<lparr>r_in_pkt_size := PKT_SIZE, r_in_header_size := 0,
      r_out_pkt_size := PKT_SIZE, r_out_header_size := 0\<rparr>"
  define is1 where "is1 = (input_of stray_stream)\<lparr>pending := drop 1400 stray_stream\<rparr>"
  let ?e0 = "\<lparr>resync = new_Resynchronizer False, sync_buf = replicate 1400 0,
              sync_pre_size = 0, cin = input_of stray_stream, cout = spacious\<rparr>"
  note sb = stray_stream_bytes
  have len1: "length mem1 = 1400"
    by (simp add: mem1_def sb)
  have bytes: "mem1 ! 0 = SYNC_BYTE" "mem1 ! 188 = SYNC_BYTE" "mem1 ! 376 \<noteq> SYNC_BYTE"
    by (simp_all add: mem1_def sb)
  \<comment> \<open>the first read\<close>
  have rd: "readData r1 (input_of stray_stream) (replicate 1400 0) 0 1400 = Inr (1400, r1, is1, mem1)"
  proof -
    have "readData r1 (input_of stray_stream) (replicate 1400 0) 0 1400 =
        Inr (1400, r1, (input_of stray_stream)\<lparr>pending := drop 1400 (pending (input_of stray_stream))\<rparr>,
             take 0 (replicate 1400 0) @ take 1400 (pending (input_of stray_stream)) @
             drop (0 + 1400) (replicate 1400 0))"
      by (rule readData_full) (simp_all add: input_of_def good_def sb)
    then show ?thesis
      by (simp add: input_of_def is1_def mem1_def)
  qed
  \<comment> \<open>the 188-byte framing passes the check on the first 376 bytes\<close>
  have strides: "\<forall>k. k * PKT_SIZE + PKT_SIZE \<le> 376 \<longrightarrow> mem1 ! (k * PKT_SIZE + 0) = SYNC_BYTE"
  proof (intro allI impI)
    fix k assume "k * PKT_SIZE + PKT_SIZE \<le> 376"
    then have "k = 0 \<or> k = 1"
      by (auto simp: PKT_SIZE_def)
    with bytes show "mem1 ! (k * PKT_SIZE + 0) = SYNC_BYTE"
      by (auto simp: PKT_SIZE_def)
  qed
  have "checkSync r1 mem1 376 PKT_SIZE 0 = Inr (True, r2)"
    using checkSync_confirms [OF _ _ strides, of r1]
    by (simp add: len1 r2_def r1_def reset_def new_Resynchronizer_def)
  then have "probe standard r1 (drop 0 mem1) 376 = Inr (True, r2)"
    by (simp add: probe_def standard_def)
  then have se: "search standard r1 mem1 376 0 1025 = Inr (0, r2)"
    by (intro search_found_here) simp_all
  have fr2: "framed PKT_SIZE 0 r2" and ip2: "inputPacketSize r2 = PKT_SIZE"
    by (simp_all add: r2_def framed_def inputPacketSize_def)
  \<comment> \<open>two blocks of 188 bytes are written, then the marker is missing\<close>
  have split: "mem1 = [] @ concat [A, B] @ rest"
  proof -
    have "mem1 = take 188 mem1 @ drop 188 mem1"
      by simp
    also have "drop 188 mem1 = take 188 (drop 188 mem1) @ drop 188 (drop 188 mem1)"
      by (simp only: append_take_drop_id)
    finally show ?thesis
      by (simp add: A_def B_def rest_def)
  qed
  have vAB: "valid_packets PKT_SIZE 0 [A, B]"
    using bytes by (simp add: A_def B_def len1 PKT_SIZE_def)
  have stop: "length rest < PKT_SIZE \<or> rest ! 0 \<noteq> SYNC_BYTE"
    using bytes by (simp add: rest_def len1)
  have bare: "bare_packet 0 A = A" "bare_packet 0 B = B"
    by (simp_all add: bare_packet_def A_def B_def PKT_SIZE_def)
  have AB: "A @ B = take 376 stray_stream"
  proof -
    have "take 376 mem1 = take 188 (take 376 mem1) @ drop 188 (take 376 mem1)"
      by (simp only: append_take_drop_id)
    also have "\<dots> = A @ B"
      by (simp add: A_def B_def drop_take)
    finally show ?thesis
      by (simp add: mem1_def)
  qed
  define os3 where "os3 = spacious\<lparr>written := take 376 stray_stream, room := room spacious - 376\<rparr>"
  obtain x where dr: "drain r2 mem1 1400 0 spacious = Inr (376, r2\<lparr>r_out_size := x\<rparr>, os3)"
  proof -
    from drain_emits [OF fr2 _ vAB split stop, of spacious]
    obtain x where "drain r2 mem1 (length mem1) (length ([]::byte list)) spacious =
        Inr (length ([]::byte list) + length [A, B] * PKT_SIZE, r2\<lparr>r_out_size := x\<rparr>,
             spacious\<lparr>written := written spacious @ concat (map (bare_packet 0) [A, B]),
                      room := room spacious - PKT_SIZE * length [A, B]\<rparr>)"
      by (auto simp: spacious_def PKT_SIZE_def)
    then have "drain r2 mem1 1400 0 spacious = Inr (376, r2\<lparr>r_out_size := x\<rparr>, os3)"
      by (simp add: len1 bare AB os3_def PKT_SIZE_def spacious_def)
    then show ?thesis ..
  qed
  define r3 where "r3 = r2\<lparr>r_out_size := x\<rparr>"
  have st3: "status r3 = RS_OK" and ip3: "inputPacketSize r3 = 188"
    by (simp_all add: r3_def r2_def r1_def reset_def status_def inputPacketSize_def PKT_SIZE_def)
  \<comment> \<open>1024 bytes are left: the synchronization is lost\<close>
  define m2 where "m2 = take (1400 - 376) (drop 376 mem1) @ drop (1400 - 376) mem1"
  have co: "compaction r3 mem1 376 1400 = Inr (setStatus r3 RS_SYNC_LOST, m2, 1024)"
    using compaction_eq [of 376 1400 mem1 r3]
    by (simp add: len1 ip3 m2_def)
  define e' where "e' = \<lparr>resync = setStatus r3 RS_SYNC_LOST, sync_buf = m2, sync_pre_size = 1024,
                          cin = is1, cout = os3\<rparr>"
  have st': "status (resync e') = RS_SYNC_LOST"
    by (simp add: e'_def status_def setStatus_def)
  then have sd: "steady e' = Inr e'"
    by (intro steady_stops) simp
  have "pass standard ?e0 = Inr (False, e')"
    using rd se dr st3 co sd
    by (simp add: pass_def standard_def r1_def r3_def ip2 PKT_SIZE_def e'_def)
  then have "resync_loop standard ?e0 = Some (Inr e')"
    by (rule resync_loop_ends) (simp add: st' standard_def)
  then have "main standard (input_of stray_stream) spacious =
      Some (Inr (EXIT_FAILURE, Completed (resync e'), cin e', cout e'))"
    using st' by (simp add: main_def header_too_large_def standard_def)
  then have "run_summary (main standard (input_of stray_stream) spacious) =
      Some (EXIT_FAILURE, Some RS_SYNC_LOST, take 376 stray_stream)"
    using st' by (simp add: run_summary_def e'_def os3_def)
  moreover have "declared_bounds standard" and "\<not> keep standard"
    by (simp_all add: standard_def declared_bounds_def MIN_SYNC_SIZE_def MAX_SYNC_SIZE_def
        MIN_CONTIG_SIZE_def MAX_CONTIG_SIZE_def PKT_SIZE_def)
  ultimately show ?thesis
    using stray_packets_valid [of 7] by (simp add: stray_stream_def)
qed

section \<open>Inputs without a marker\<close>

lemma readData_short:
  assumes "good is" and "length (pending is) < n" and "dst + length (pending is) \<le> length m"
  shows "\<exists>is' m'. readData r is m dst n = Inr (0, r\<lparr>r_status := RS_EOF\<rparr>, is', m') \<and>
                  pending is' = [] \<and> length m' = length m"
proof -
  from assms(1,2) have c: "\<not> fst (cin_read is n)" "fst (snd (cin_read is n)) = pending is"
    "pending (snd (snd (cin_read is n))) = []"
    by (simp_all add: cin_read_def istream_read_def fail_def)
  from assms(3) obtain m' where "store m dst (pending is) = Inr m'" and "length m' = length m"
    by (simp add: store_def)
  with assms(2) c show ?thesis
    by (simp add: readData_eq)
qed

lemma drain_nothing:
  assumes "sync_end < inputPacketSize r"
  shows "drain r m sync_end 0 os = Inr (0, r, os)"
  using assms by (simp add: drain.simps [of r m sync_end 0])

lemma short_stream_dropped:
  assumes "packet_size opt = 0" and "good is"
    and "length (pending is) < sync_size opt + contig_size opt"
  shows "run_summary (main opt is os) = Some (EXIT_SUCCESS, Some RS_EOF, written os)"
proof -
  define cap where "cap = sync_size opt + contig_size opt"
  define r0 where "r0 = reset (new_Resynchronizer (keep opt))"
  let ?e0 = "\<lparr>resync = new_Resynchronizer (keep opt), sync_buf = replicate cap 0,
              sync_pre_size = 0, cin = is, cout = os\<rparr>"
  from assms(3) have "0 + length (pending is) \<le> length (replicate cap (0::byte))"
    by (simp add: cap_def)
  from readData_short [OF assms(2) assms(3) [folded cap_def] this, of r0]
  obtain is' m' where rd: "readData r0 is (replicate cap 0) 0 cap =
      Inr (0, r0\<lparr>r_status := RS_EOF\<rparr>, is', m')"
    by blast
  define r1 where "r1 = r0\<lparr>r_status := RS_EOF\<rparr>"
  define r2 where "r2 = r1\<lparr>r_in_pkt_size := PKT_SIZE, r_in_header_size := 0,
      r_out_pkt_size := (if r_keep_packet_size r1 then PKT_SIZE else PKT_SIZE),
      r_out_header_size := (if r_keep_packet_size r1 then 0 else 0)\<rparr>"
  have "probe opt r1 (drop 0 m') 0 = Inr (True, r2)"
    using assms(1) checkSync_short_region [of 0 PKT_SIZE 0 r1 m']
    by (simp add: probe_def r2_def PKT_SIZE_def)
  then have se: "search opt r1 m' 0 0 1 = Inr (0, r2)"
    by (intro search_found_here) simp_all
  have ip: "inputPacketSize r2 = PKT_SIZE" and st: "status r2 = RS_EOF"
    by (simp_all add: r2_def r1_def inputPacketSize_def status_def)
  have dr: "drain r2 m' 0 0 os = Inr (0, r2, os)"
    by (rule drain_nothing) (simp add: ip PKT_SIZE_def)
  let ?e' = "?e0\<lparr>resync := r2, sync_buf := m', cin := is', cout := os\<rparr>"
  have "pass opt ?e0 = Inr (True, ?e')"
    using rd se dr ip st
    by (simp add: pass_def r0_def r1_def PKT_SIZE_def)
  then have "resync_loop opt ?e0 = Some (Inr ?e')"
    by (simp add: resync_loop.simps [of opt ?e0])
  with assms(1) st show ?thesis
    by (simp add: main_def header_too_large_def run_summary_def cap_def)
qed

lemma checkSync_first_byte:
  assumes "hdr + PKT_SIZE \<le> pkt" and "pkt \<le> n" and "hdr < length buf"
    and "buf ! hdr \<noteq> SYNC_BYTE"
  shows "checkSync r buf n pkt hdr = Inr (False, r)"
proof -
  from assms(1) have "0 < pkt"
    by (simp add: PKT_SIZE_def)
  with assms have "scan buf hdr pkt 0 (int n - int pkt + 1) = Inr False"
    by (simp add: scan.simps [of buf hdr pkt 0] byte_at_def)
  with assms(1) show ?thesis
    by (simp add: checkSync_def)
qed

lemma probe_without_marker:
  assumes "packet_size opt = 0" and "PKT_RS_SIZE \<le> n" and "n \<le> length buf"
    and "SYNC_BYTE \<notin> set buf"
  shows "probe opt r buf n = Inr (False, r)"
proof -
  from assms(2,3) have len: "PKT_RS_SIZE \<le> length buf"
    by simp
  have no: "buf ! i \<noteq> SYNC_BYTE" if "i < length buf" for i
    using assms(4) that by (metis nth_mem)
  from len have l0: "0 < length buf" and l4: "M2TS_HEADER_SIZE < length buf"
    by (auto simp: PKT_RS_SIZE_def M2TS_HEADER_SIZE_def)
  have no0: "buf ! 0 \<noteq> SYNC_BYTE" and no4: "buf ! M2TS_HEADER_SIZE \<noteq> SYNC_BYTE"
    by (rule no [OF l0], rule no [OF l4])
  have a: "checkSync r buf n PKT_SIZE 0 = Inr (False, r)"
    using assms(2) by (intro checkSync_first_byte l0 no0) (simp_all add: PKT_SIZE_def PKT_RS_SIZE_def)
  have b: "checkSync r buf n PKT_RS_SIZE 0 = Inr (False, r)"
    using assms(2) by (intro checkSync_first_byte l0 no0) (simp_all add: PKT_SIZE_def PKT_RS_SIZE_def)
  have c: "checkSync r buf n PKT_M2TS_SIZE M2TS_HEADER_SIZE = Inr (False, r)"
    using assms(2)
    by (intro checkSync_first_byte l4 no4)
       (simp_all add: PKT_SIZE_def PKT_RS_SIZE_def PKT_M2TS_SIZE_def M2TS_HEADER_SIZE_def)
  from assms(1) a b c show ?thesis
    by (simp add: probe_def)
qed

lemma search_without_marker:
  assumes "packet_size opt = 0" and "PKT_RS_SIZE \<le> n"
    and "end_search + n \<le> length m + 1" and "SYNC_BYTE \<notin> set m"
  shows "search opt r m n start end_search = Inr (max start end_search, r)"
  using assms
proof (induction opt r m n start end_search rule: search.induct)
  case (1 opt r m n start end_search)
  show ?case
  proof (cases "start < end_search")
    case False
    then show ?thesis
      by (simp add: search.simps [of opt r m n start] max_def)
  next
    case True
    with "1.prems" have len: "n \<le> length (drop start m)"
      by simp
    from "1.prems"(4) have "SYNC_BYTE \<notin> set (drop start m)"
      by (auto dest: in_set_dropD)
    from probe_without_marker [OF "1.prems"(1,2) len this]
    have p: "probe opt r (drop start m) n = Inr (False, r)" .
    with True have "search opt r m n start end_search = search opt r m n (start + 1) end_search"
      by (simp add: search.simps [of opt r m n start])
    also have "\<dots> = Inr (max (start + 1) end_search, r)"
      using "1.IH" [OF True, of "(False, r)" False r] p "1.prems" by simp
    finally show ?thesis
      using True by (simp add: max_def)
  qed
qed

lemma markerless_buffer_is_error:
  assumes "packet_size opt = 0" and "PKT_RS_SIZE \<le> contig_size opt"
    and "good is" and "sync_size opt + contig_size opt \<le> length (pending is)"
    and "SYNC_BYTE \<notin> set (take (sync_size opt + contig_size opt) (pending is))"
  shows "run_summary (main opt is os) = Some (EXIT_FAILURE, Some RS_ERROR, written os)"
proof -
  define cap where "cap = sync_size opt + contig_size opt"
  define r1 where "r1 = reset (new_Resynchronizer (keep opt))"
  define mem1 where "mem1 = take cap (pending is)"
  define is1 where "is1 = is\<lparr>pending := drop cap (pending is)\<rparr>"
  let ?e0 = "\<lparr>resync = new_Resynchronizer (keep opt), sync_buf = replicate cap 0,
              sync_pre_size = 0, cin = is, cout = os\<rparr>"
  have len1: "length mem1 = cap"
    using assms(4) by (simp add: mem1_def cap_def)
  have rd: "readData r1 is (replicate cap 0) 0 cap = Inr (cap, r1, is1, mem1)"
  proof -
    have "readData r1 is (replicate cap 0) 0 cap =
        Inr (cap, r1, is\<lparr>pending := drop cap (pending is)\<rparr>,
             take 0 (replicate cap 0) @ take cap (pending is) @ drop (0 + cap) (replicate cap 0))"
      using assms(4) by (intro readData_full [OF assms(3)]) (simp_all add: cap_def)
    then show ?thesis
      by (simp add: is1_def mem1_def)
  qed
  have ss: "min (contig_size opt) cap = contig_size opt"
    by (simp add: cap_def)
  have "search opt r1 mem1 (contig_size opt) 0 (cap - contig_size opt + 1) =
      Inr (max 0 (cap - contig_size opt + 1), r1)"
    using assms(4,5)
    by (intro search_without_marker [OF assms(1,2)]) (simp_all add: len1 cap_def mem1_def)
  then have se: "search opt r1 mem1 (contig_size opt) 0 (cap - contig_size opt + 1) =
      Inr (cap - contig_size opt + 1, r1)"
    by simp
  have ip: "inputPacketSize r1 = 0"
    by (simp add: r1_def reset_def inputPacketSize_def)
  let ?e' = "?e0\<lparr>resync := setStatus r1 RS_ERROR, sync_buf := mem1, cin := is1\<rparr>"
  have "pass opt ?e0 = Inr (True, ?e')"
    using rd se ip by (simp add: pass_def ss r1_def)
  then have "resync_loop opt ?e0 = Some (Inr ?e')"
    by (rule resync_loop_ends) simp
  with assms(1) show ?thesis
    by (simp add: main_def header_too_large_def run_summary_def cap_def status_def setStatus_def)
qed

lemma drain_bad_marker:
  assumes "start + inputPacketSize r \<le> sync_end" and "0 < inputPacketSize r"
    and "start + inputHeaderSize r < length m" and "m ! (start + inputHeaderSize r) \<noteq> SYNC_BYTE"
  shows "drain r m sync_end start os = Inr (start, r, os)"
proof -
  from assms(1) have "int start \<le> int sync_end - int (inputPacketSize r)"
    by linarith
  with assms show ?thesis
    by (simp add: drain.simps [of r m sync_end start] byte_at_def)
qed

lemma pass_to_stuck:
  assumes "resync e = new_Resynchronizer False \<and> sync_pre_size e = 0 \<and>
             cin e = input_of (replicate 1400 0) \<or> e = stuck"
    and "sync_buf e = replicate 1400 0" and "cout e = spacious"
  shows "pass pinned_1000 e = Inr (False, stuck)"
proof -
  define r1 where "r1 = reset (resync e)"
  define mem1 where "mem1 = (replicate 1400 0 :: byte list)"
  define is1 where "is1 = (input_of (replicate 1400 0))\<lparr>pending := []\<rparr>"
  define r2 where "r2 = r1\<lparr>r_in_pkt_size := 1000, r_in_header_size := 0,
      r_out_pkt_size := PKT_SIZE, r_out_header_size := 0\<rparr>"
  have keep: "\<not> r_keep_packet_size r1" and st1: "r_status r1 = RS_OK" and sz: "r_out_size r1 = 0"
    using assms(1) by (auto simp: r1_def reset_def new_Resynchronizer_def stuck_def)
  have rd: "readData r1 (cin e) (sync_buf e) (sync_pre_size e) (length (sync_buf e) - sync_pre_size e) =
      Inr (1400 - sync_pre_size e, r1, is1, mem1)"
    using assms(1)
  proof
    assume first: "resync e = new_Resynchronizer False \<and> sync_pre_size e = 0 \<and>
      cin e = input_of (replicate 1400 0)"
    have "readData r1 (input_of (replicate 1400 0)) (replicate 1400 0) 0 1400 =
        Inr (1400, r1, (input_of (replicate 1400 0))
               \<lparr>pending := drop 1400 (pending (input_of (replicate 1400 0)))\<rparr>,
             take 0 (replicate 1400 0) @ take 1400 (pending (input_of (replicate 1400 0))) @
             drop (0 + 1400) (replicate 1400 0))"
      by (rule readData_full) (simp_all add: input_of_def good_def)
    with first show ?thesis
      by (simp add: assms(2) input_of_def is1_def mem1_def)
  next
    assume "e = stuck"
    then show ?thesis
      by (simp add: readData_eq stuck_def is1_def mem1_def)
  qed
  have len: "sync_pre_size e + (1400 - sync_pre_size e) = 1400"
    using assms(1) by (auto simp: stuck_def)
  have "checkSync r1 mem1 376 1000 0 = Inr (True, r2)"
    using checkSync_short_region [of 0 1000 376 r1 mem1] keep
    by (simp add: r2_def PKT_SIZE_def)
  then have "probe pinned_1000 r1 (drop 0 mem1) 376 = Inr (True, r2)"
    by (simp add: probe_def pinned_1000_def)
  then have se: "search pinned_1000 r1 mem1 376 0 1025 = Inr (0, r2)"
    by (intro search_found_here) simp_all
  have ip: "inputPacketSize r2 = 1000" and ih: "inputHeaderSize r2 = 0" and st2: "status r2 = RS_OK"
    using st1 by (simp_all add: r2_def inputPacketSize_def inputHeaderSize_def status_def)
  have dr: "drain r2 mem1 1400 0 spacious = Inr (0, r2, spacious)"
    by (rule drain_bad_marker) (simp_all add: ip ih mem1_def SYNC_BYTE_def)
  have co: "compaction r2 mem1 0 1400 = Inr (setStatus r2 RS_SYNC_LOST, mem1, 1400)"
    using compaction_eq [of 0 1400 mem1 r2] by (simp add: ip mem1_def)
  have r2': "setStatus r2 RS_SYNC_LOST = resync stuck"
    using keep sz by (cases r1) (simp add: r2_def setStatus_def stuck_def PKT_SIZE_def)
  have e': "\<lparr>resync = setStatus r2 RS_SYNC_LOST, sync_buf = mem1, sync_pre_size = 1400,
            cin = is1, cout = spacious\<rparr> = stuck"
    by (simp add: r2' stuck_def mem1_def is1_def)
  have sd: "steady stuck = Inr stuck"
    by (rule steady_stops) (simp add: stuck_def status_def)
  show ?thesis
    using rd se dr st2 co sd
    by (simp add: pass_def pinned_1000_def r1_def [symmetric] len assms(2,3) ip e')
qed

lemma resync_loop_again:
  assumes "pass opt e = Inr (False, e')" and "status (resync e') = RS_SYNC_LOST"
    and "cont_sync opt"
  shows "resync_loop opt e = resync_loop opt e'"
  using assms by (simp add: resync_loop.simps [of opt e])

lemma resync_loop_stuck: "resync_loop pinned_1000 stuck = None"
proof -
  have again: "pass pinned_1000 stuck = Inr (False, stuck)"
    by (rule pass_to_stuck) (simp_all add: stuck_def)
  have lost: "status (resync stuck) = RS_SYNC_LOST" and cont: "cont_sync pinned_1000"
    by (simp_all add: stuck_def status_def pinned_1000_def)
  have "\<not> (opt = pinned_1000 \<and> e = stuck)" if "resync_loop opt e = Some y" for opt e y
  proof (rule resync_loop.raw_induct [OF _ that])
    fix resync_loop' :: "Options \<Rightarrow> engine \<Rightarrow> (fault + engine) option" and opt e y
    assume ih: "\<And>opt e y. resync_loop' opt e = Some y \<Longrightarrow> \<not> (opt = pinned_1000 \<and> e = stuck)"
      and body: "(case pass opt e of
                    Inl f \<Rightarrow> Some (Inl f)
                  | Inr (left, e') \<Rightarrow>
                      if \<not> left \<and> (status (resync e') = RS_OK \<or>
                                     (status (resync e') = RS_SYNC_LOST \<and> cont_sync opt))
                      then resync_loop' opt e'
                      else Some (Inr e')) = Some y"
    show "\<not> (opt = pinned_1000 \<and> e = stuck)"
    proof
      assume "opt = pinned_1000 \<and> e = stuck"
      with body again lost cont have "resync_loop' pinned_1000 stuck = Some y"
        by simp
      from ih [OF this] show False
        by simp
    qed
  qed
  then show ?thesis
    by (cases "resync_loop pinned_1000 stuck") auto
qed

lemma vacuous_framing_never_returns:
  "main pinned_1000 (input_of (replicate 1400 0)) spacious = None"
proof -
  let ?e0 = "\<lparr>resync = new_Resynchronizer False, sync_buf = replicate 1400 0,
              sync_pre_size = 0, cin = input_of (replicate 1400 0), cout = spacious\<rparr>"
  have "pass pinned_1000 ?e0 = Inr (False, stuck)"
    by (rule pass_to_stuck) simp_all
  then have "resync_loop pinned_1000 ?e0 = resync_loop pinned_1000 stuck"
    by (rule resync_loop_again) (simp_all add: stuck_def status_def pinned_1000_def)
  then have "resync_loop pinned_1000 ?e0 = None"
    by (simp only: resync_loop_stuck)
  moreover have "\<not> header_too_large pinned_1000" and "keep pinned_1000 = False"
    and "sync_size pinned_1000 + contig_size pinned_1000 = 1400"
    by (simp_all add: header_too_large_def pinned_1000_def PKT_SIZE_def)
  ultimately show ?thesis
    by (simp add: main_def)
qed

text \<open>
  Claim C5 says that an input of at least one verification window with no marker at any
  checked position ends with the status \<open>RS_ERROR\<close> and no output. The code does so when
  the input fills the synchronization buffer and every check looks at a byte (lemma
  \<open>markerless_buffer_is_error\<close>). It does otherwise in two cases.

  When the input is shorter than the buffer (lemma \<open>short_stream_dropped\<close>), the read that
  meets the end of the input counts no byte, the search runs on an empty region, where
  \<open>checkSync\<close> confirms the 188-byte framing, and the run ends with the status \<open>RS_EOF\<close>
  and success: here on 376 zero bytes, one window of the smallest size allowed.

  When the packet size given is larger than the window, \<open>checkSync\<close> confirms it at offset
  0 without looking at a byte, nothing is written, the whole buffer is carried over, and
  with the option to continue the next turn reads nothing and does the same again: here
  on 1400 zero bytes and the packet size 1000 the program does not return.
\<close>

theorem markerless_input_not_rejected:
  "declared_bounds standard \<and>
   contig_size standard \<le> length (replicate 376 (0::byte)) \<and>
   SYNC_BYTE \<notin> set (replicate 376 0) \<and>
   run_summary (main standard (input_of (replicate 376 0)) spacious) =
     Some (EXIT_SUCCESS, Some RS_EOF, []) \<and>
   declared_bounds pinned_1000 \<and>
   contig_size pinned_1000 \<le> length (replicate 1400 (0::byte)) \<and>
   SYNC_BYTE \<notin> set (replicate 1400 0) \<and>
   main pinned_1000 (input_of (replicate 1400 0)) spacious = None"
proof -
  have short: "run_summary (main standard (input_of (replicate 376 0)) spacious) =
      Some (EXIT_SUCCESS, Some RS_EOF, [])"
    using short_stream_dropped [of standard "input_of (replicate 376 0)" spacious]
    by (simp add: standard_def input_of_def good_def spacious_def)
  have bounds: "declared_bounds standard" "declared_bounds pinned_1000"
    by (simp_all add: standard_def pinned_1000_def declared_bounds_def MIN_SYNC_SIZE_def
        MAX_SYNC_SIZE_def MIN_CONTIG_SIZE_def MAX_CONTIG_SIZE_def PKT_SIZE_def)
  have windows: "contig_size standard \<le> length (replicate 376 (0::byte))"
    "contig_size pinned_1000 \<le> length (replicate 1400 (0::byte))"
    by (simp_all add: standard_def pinned_1000_def)
  have markerless: "SYNC_BYTE \<notin> set (replicate 376 0)" "SYNC_BYTE \<notin> set (replicate 1400 0)"
    by (simp_all add: SYNC_BYTE_def)
  from short bounds windows markerless vacuous_framing_never_returns show ?thesis
    by (intro conjI)
qed

section \<open>One turn, up to the end of its first output loop\<close>

lemma pass_after_drain:
  assumes "after_drain opt e = Some (sync_end, start, r, m, is, os)"
  shows "pass opt e =
         (if status r \<noteq> RS_OK
          then Inr (True, e\<lparr>resync := r, sync_buf := m, cin := is, cout := os\<rparr>)
          else
            (case compaction r m start sync_end of
               Inl f \<Rightarrow> Inl f
             | Inr (r4, m2, pre) \<Rightarrow>
                 (case steady \<lparr>resync = r4, sync_buf = m2, sync_pre_size = pre,
                               cin = is, cout = os\<rparr> of
                    Inl f \<Rightarrow> Inl f
                  | Inr e' \<Rightarrow> Inr (False, e'))))"
  using assms
  by (auto simp: after_drain_def pass_def Let_def split: sum.splits prod.splits if_splits)

lemma probe_false_same:
  assumes "probe opt r buf n = Inr (False, r')"
  shows "r' = r"
proof -
  have same: "r1 = r0" if "checkSync r0 buf n p h = Inr (False, r1)" for p h r0 r1
    using checkSync_cases [OF that] by simp
  show ?thesis
  proof (cases "packet_size opt > 0")
    case True
    with assms show ?thesis
      by (intro same [of r "packet_size opt" "header_size opt"]) (simp add: probe_def)
  next
    case False
    with assms show ?thesis
      by (auto simp: probe_def split: sum.splits bool.splits dest!: same)
  qed
qed

lemma search_result:
  assumes "search opt r m n start end_search = Inr (s, r')" and "start \<le> end_search"
  shows "(s < end_search \<and> probe opt r (drop s m) n = Inr (True, r')) \<or>
         (s = end_search \<and> r' = r)"
  using assms
proof (induction opt r m n start end_search rule: search.induct)
  case (1 opt r m n start end_search)
  show ?case
  proof (cases "start < end_search")
    case False
    with "1.prems" show ?thesis
      by (simp add: search.simps [of opt r m n start])
  next
    case True
    from "1.prems"(1) True obtain ok r1 where
      p: "probe opt r (drop start m) n = Inr (ok, r1)"
      by (auto simp: search.simps [of opt r m n start] split: sum.splits)
    show ?thesis
    proof (cases ok)
      case True
      with p \<open>start < end_search\<close> "1.prems"(1) show ?thesis
        by (simp add: search.simps [of opt r m n start])
    next
      case False
      with p have r1: "r1 = r"
        by (intro probe_false_same [of opt r "drop start m" n]) simp
      from p False r1 \<open>start < end_search\<close> "1.prems"(1)
      have "search opt r m n (start + 1) end_search = Inr (s, r')"
        by (simp add: search.simps [of opt r m n start])
      with "1.IH" [OF \<open>start < end_search\<close>, of "(False, r)" False r] p False r1 \<open>start < end_search\<close>
      show ?thesis
        by simp
    qed
  qed
qed

lemma drain_bound:
  assumes "drain r m sync_end start os = Inr (s', r', os')" and "start \<le> sync_end"
  shows "s' \<le> sync_end"
  using assms
proof (induction r m sync_end start os rule: drain.induct)
  case (1 r m sync_end start os)
  show ?case
  proof (cases "int start \<le> int sync_end - int (inputPacketSize r) \<and> 0 < inputPacketSize r")
    case False
    with "1.prems" show ?thesis
      by (simp add: drain.simps [of r m sync_end start])
  next
    case True
    show ?thesis
    proof (cases "byte_at m (start + inputHeaderSize r)")
      case (Inl f)
      with True "1.prems" show ?thesis
        by (simp add: drain.simps [of r m sync_end start])
    next
      case (Inr b)
      show ?thesis
      proof (cases "b = SYNC_BYTE")
        case False
        with Inr True "1.prems" show ?thesis
          by (simp add: drain.simps [of r m sync_end start])
      next
        case sync: True
        show ?thesis
        proof (cases "writePacket r (drop start m) os")
          case (Inl f)
          with sync Inr True "1.prems" show ?thesis
            by (simp add: drain.simps [of r m sync_end start])
        next
          case w: (Inr res)
          obtain ok r1 os1 where res: "res = (ok, r1, os1)"
            by (cases res) auto
          show ?thesis
          proof (cases ok)
            case False
            with w res sync Inr True "1.prems" show ?thesis
              by (simp add: drain.simps [of r m sync_end start])
          next
            case ok: True
            from w res have ip: "inputPacketSize r1 = inputPacketSize r"
              by (auto simp: writePacket_def inputPacketSize_def split: sum.splits if_splits)
            from ok w res sync Inr True "1.prems"(1)
            have d: "drain r1 m sync_end (start + inputPacketSize r1) os1 = Inr (s', r', os')"
              by (simp add: drain.simps [of r m sync_end start])
            from True ip have le: "start + inputPacketSize r1 \<le> sync_end"
              by linarith
            from "1.IH" [OF True Inr sync w [unfolded res] _ _ _ d le] res ok
            show ?thesis
              by simp
          qed
        qed
      qed
    qed
  qed
qed

subsection \<open>Runs of two turns\<close>

lemma writePacket_ok:
  assumes "r_out_header_size r \<le> r_in_header_size r"
    and "r_in_header_size r - r_out_header_size r + r_out_pkt_size r \<le> length pkt"
    and "\<not> obad os" and "r_out_pkt_size r \<le> room os"
  shows "writePacket r pkt os =
         Inr (True, r\<lparr>r_out_size := (r_out_size r + r_out_pkt_size r) mod 2 ^ 64\<rparr>,
              os\<lparr>written := written os @
                    take (r_out_pkt_size r) (drop (r_in_header_size r - r_out_header_size r) pkt),
                 room := room os - r_out_pkt_size r\<rparr>)"
proof -
  let ?out = "take (r_out_pkt_size r) (drop (r_in_header_size r - r_out_header_size r) pkt)"
  from assms(1,2) have f: "fetch pkt (int (r_in_header_size r) - int (r_out_header_size r))
      (r_out_pkt_size r) = Inr ?out"
    by (simp add: fetch_def nat_diff_distrib')
  from assms(2) have len: "length ?out = r_out_pkt_size r"
    by simp
  with assms(3,4) have "cout_write os ?out =
      (True, os\<lparr>written := written os @ ?out, room := room os - r_out_pkt_size r\<rparr>)"
    by (simp add: cout_write_def)
  with f show ?thesis
    by (simp add: writePacket_def)
qed

lemma map_upt_Suc_front: "map f [0..<Suc k] = f 0 # map (\<lambda>j. f (Suc j)) [0..<k]"
  by (simp add: upt_conv_Cons map_Suc_upt [symmetric] del: upt_Suc)

lemma drain_run:
  assumes "r_in_header_size r < r_in_pkt_size r"
    and "r_out_header_size r \<le> r_in_header_size r"
    and "r_in_header_size r - r_out_header_size r + r_out_pkt_size r \<le> r_in_pkt_size r"
    and "r_out_size r < 2 ^ 64"
    and "start + k * r_in_pkt_size r \<le> sync_end" and "sync_end \<le> length m"
    and "\<forall>j<k. m ! (start + j * r_in_pkt_size r + r_in_header_size r) = SYNC_BYTE"
    and "sync_end < start + k * r_in_pkt_size r + r_in_pkt_size r \<or>
         m ! (start + k * r_in_pkt_size r + r_in_header_size r) \<noteq> SYNC_BYTE"
    and "\<not> obad os" and "k * r_out_pkt_size r \<le> room os"
  shows "drain r m sync_end start os =
         Inr (start + k * r_in_pkt_size r,
              r\<lparr>r_out_size := (r_out_size r + k * r_out_pkt_size r) mod 2 ^ 64\<rparr>,
              os\<lparr>written := written os @
                    concat (map (\<lambda>j. take (r_out_pkt_size r)
                                        (drop (start + j * r_in_pkt_size r +
                                               (r_in_header_size r - r_out_header_size r)) m))
                                [0..<k]),
                 room := room os - k * r_out_pkt_size r\<rparr>)"
  using assms
proof (induction k arbitrary: start r os)
  case 0
  have "drain r m sync_end start os = Inr (start, r, os)"
  proof (cases "sync_end < start + r_in_pkt_size r")
    case True
    then have "\<not> int start \<le> int sync_end - int (inputPacketSize r)"
      by (simp add: inputPacketSize_def)
    then show ?thesis
      by (simp add: drain.simps [of r m sync_end start])
  next
    case False
    with "0.prems" have bad: "m ! (start + r_in_header_size r) \<noteq> SYNC_BYTE"
      and inside: "start + r_in_header_size r < length m"
      by auto
    then show ?thesis
      by (simp add: drain.simps [of r m sync_end start] byte_at_def inputHeaderSize_def)
  qed
  with "0.prems"(4) show ?case
    by simp
next
  case (Suc k)
  let ?pkt = "r_in_pkt_size r" and ?hdr = "r_in_header_size r" and ?opkt = "r_out_pkt_size r"
  let ?off = "r_in_header_size r - r_out_header_size r"
  let ?r1 = "r\<lparr>r_out_size := (r_out_size r + ?opkt) mod 2 ^ 64\<rparr>"
  let ?os1 = "os\<lparr>written := written os @ take ?opkt (drop ?off (drop start m)),
                 room := room os - ?opkt\<rparr>"
  from Suc.prems(1) have pos: "0 < ?pkt"
    by simp
  from Suc.prems(5) have fit: "start + ?pkt \<le> sync_end"
    by simp
  then have go: "int start \<le> int sync_end - int (inputPacketSize r) \<and> 0 < inputPacketSize r"
    using pos by (simp add: inputPacketSize_def)
  from fit Suc.prems(1,6) have inside: "start + ?hdr < length m"
    by linarith
  from Suc.prems(7) have "m ! (start + 0 * ?pkt + ?hdr) = SYNC_BYTE"
    by blast
  with inside have b: "byte_at m (start + inputHeaderSize r) = Inr SYNC_BYTE"
    by (simp add: byte_at_def inputHeaderSize_def)
  from fit Suc.prems(3,6) have "?off + ?opkt \<le> length (drop start m)"
    by simp
  moreover from Suc.prems(10) have "?opkt \<le> room os"
    by simp
  ultimately have w: "writePacket r (drop start m) os = Inr (True, ?r1, ?os1)"
    using writePacket_ok [OF Suc.prems(2) _ Suc.prems(9)] by blast
  from go b w have step: "drain r m sync_end start os = drain ?r1 m sync_end (start + ?pkt) ?os1"
    by (simp add: drain.simps [of r m sync_end start] inputPacketSize_def)
  have nxt: "\<forall>j<k. m ! (start + ?pkt + j * ?pkt + ?hdr) = SYNC_BYTE"
  proof (intro allI impI)
    fix j assume "j < k"
    with Suc.prems(7) have "m ! (start + Suc j * ?pkt + ?hdr) = SYNC_BYTE"
      by (metis Suc_less_eq)
    then show "m ! (start + ?pkt + j * ?pkt + ?hdr) = SYNC_BYTE"
      by (simp add: add.assoc)
  qed
  from Suc.prems(8) have stop: "sync_end < start + ?pkt + k * ?pkt + ?pkt \<or>
      m ! (start + ?pkt + k * ?pkt + ?hdr) \<noteq> SYNC_BYTE"
    by (simp add: add.assoc)
  from Suc.prems(5) have fit': "start + ?pkt + k * ?pkt \<le> sync_end"
    by (simp add: add.assoc)
  from Suc.prems(10) have room': "k * ?opkt \<le> room os - ?opkt"
    by simp
  have "drain ?r1 m sync_end (start + ?pkt) ?os1 =
      Inr (start + ?pkt + k * ?pkt,
           r\<lparr>r_out_size := (r_out_size ?r1 + k * ?opkt) mod 2 ^ 64\<rparr>,
           os\<lparr>written := written ?os1 @
                    concat (map (\<lambda>j. take ?opkt (drop (start + ?pkt + j * ?pkt + ?off) m)) [0..<k]),
                 room := room os - ?opkt - k * ?opkt\<rparr>)"
    using Suc.IH [of ?r1 "start + ?pkt" ?os1] Suc.prems(1,2,3,6,9) nxt stop fit' room'
    by simp
  moreover have "(r_out_size ?r1 + k * ?opkt) mod 2 ^ 64 = (r_out_size r + Suc k * ?opkt) mod 2 ^ 64"
    by (simp add: mod_add_left_eq add.assoc)
  ultimately show ?case
    unfolding step map_upt_Suc_front
    by (simp add: add.assoc add.commute [of start] add.left_commute)
qed

lemma search_skip:
  assumes "\<forall>i. start \<le> i \<and> i < s \<longrightarrow> probe opt r (drop i m) n = Inr (False, r)"
    and "start \<le> s" and "s \<le> end_search"
  shows "search opt r m n start end_search = search opt r m n s end_search"
  using assms
proof (induction "s - start" arbitrary: start)
  case 0
  then show ?case by simp
next
  case (Suc d)
  then have lt: "start < s" and p: "probe opt r (drop start m) n = Inr (False, r)"
    by auto
  from lt Suc.prems(3) have "start < end_search"
    by simp
  with p have "search opt r m n start end_search = search opt r m n (start + 1) end_search"
    by (simp add: search.simps [of opt r m n start])
  also have "\<dots> = search opt r m n s end_search"
    using Suc.hyps(2) Suc.prems lt by (intro Suc.hyps(1)) auto
  finally show ?case .
qed

lemma all_strides_one:
  assumes "pkt \<le> n" and "n < 2 * pkt"
  shows "all_strides buf n pkt hdr \<longleftrightarrow> buf ! hdr = SYNC_BYTE"
proof -
  have "k * pkt + pkt \<le> n \<longleftrightarrow> k = 0" for k
  proof
    assume a: "k * pkt + pkt \<le> n"
    show "k = 0"
    proof (rule ccontr)
      assume "k \<noteq> 0"
      then have "1 * pkt \<le> k * pkt"
        by (intro mult_le_mono1) simp
      with a assms(2) show False
        by simp
    qed
  next
    assume "k = 0" with assms(1) show "k * pkt + pkt \<le> n" by simp
  qed
  then show ?thesis
    by (simp add: all_strides_def)
qed

lemma all_strides_two:
  assumes "2 * pkt \<le> n" and "n < 3 * pkt"
  shows "all_strides buf n pkt hdr \<longleftrightarrow> buf ! hdr = SYNC_BYTE \<and> buf ! (pkt + hdr) = SYNC_BYTE"
proof -
  have "k * pkt + pkt \<le> n \<longleftrightarrow> k = 0 \<or> k = 1" for k
  proof
    assume a: "k * pkt + pkt \<le> n"
    show "k = 0 \<or> k = 1"
    proof (rule ccontr)
      assume "\<not> (k = 0 \<or> k = 1)"
      then have "2 * pkt \<le> k * pkt"
        by (intro mult_le_mono1) simp
      with a assms(2) show False
        by simp
    qed
  next
    assume "k = 0 \<or> k = 1" with assms(1) show "k * pkt + pkt \<le> n" by auto
  qed
  then show ?thesis
    by (auto simp: all_strides_def)
qed

lemma probe_window:
  assumes "packet_size opt = 0" and "contig_size opt = 376" and "376 \<le> length buf"
  shows "probe opt r buf (contig_size opt) =
         (if buf ! 0 = SYNC_BYTE \<and> buf ! 188 = SYNC_BYTE
          then Inr (True, r\<lparr>r_in_pkt_size := 188, r_in_header_size := 0,
                       r_out_pkt_size := 188, r_out_header_size := 0\<rparr>)
          else if buf ! 0 = SYNC_BYTE
          then Inr (True, r\<lparr>r_in_pkt_size := 204, r_in_header_size := 0,
                       r_out_pkt_size := (if r_keep_packet_size r then 204 else 188),
                       r_out_header_size := 0\<rparr>)
          else if buf ! 4 = SYNC_BYTE
          then Inr (True, r\<lparr>r_in_pkt_size := 192, r_in_header_size := 4,
                       r_out_pkt_size := (if r_keep_packet_size r then 192 else 188),
                       r_out_header_size := (if r_keep_packet_size r then 4 else 0)\<rparr>)
          else Inr (False, r))"
proof -
  have a: "0 + PKT_SIZE \<le> PKT_SIZE" and b: "0 + PKT_SIZE \<le> PKT_RS_SIZE"
    and c: "M2TS_HEADER_SIZE + PKT_SIZE \<le> PKT_M2TS_SIZE"
    by (simp_all add: PKT_SIZE_def PKT_RS_SIZE_def PKT_M2TS_SIZE_def M2TS_HEADER_SIZE_def)
  have s1: "all_strides buf 376 PKT_SIZE 0 \<longleftrightarrow> buf ! 0 = SYNC_BYTE \<and> buf ! 188 = SYNC_BYTE"
    using all_strides_two [of PKT_SIZE 376 buf 0] by (simp add: PKT_SIZE_def)
  have s2: "all_strides buf 376 PKT_RS_SIZE 0 \<longleftrightarrow> buf ! 0 = SYNC_BYTE"
    using all_strides_one [of PKT_RS_SIZE 376 buf 0] by (simp add: PKT_RS_SIZE_def)
  have s3: "all_strides buf 376 PKT_M2TS_SIZE M2TS_HEADER_SIZE \<longleftrightarrow> buf ! 4 = SYNC_BYTE"
    using all_strides_one [of PKT_M2TS_SIZE 376 buf M2TS_HEADER_SIZE]
    by (simp add: PKT_M2TS_SIZE_def M2TS_HEADER_SIZE_def)
  note cs = checkSync_eq [OF a assms(3)] checkSync_eq [OF b assms(3)] checkSync_eq [OF c assms(3)]
  show ?thesis
    using assms(1)
    by (simp add: probe_def assms(2) cs s1 s2 s3)
       (simp add: PKT_SIZE_def PKT_RS_SIZE_def PKT_M2TS_SIZE_def M2TS_HEADER_SIZE_def)
qed

lemma after_drain_found:
  assumes rd: "readData (reset (resync e)) (cin e) (sync_buf e) (sync_pre_size e)
                 (length (sync_buf e) - sync_pre_size e) = Inr (read_size, r1, is1, m1)"
    and len: "sync_len = sync_pre_size e + read_size"
    and win: "pos + contig_size opt \<le> sync_len"
    and skip: "\<forall>i. i < pos \<longrightarrow> probe opt r1 (drop i m1) (contig_size opt) = Inr (False, r1)"
    and hit: "probe opt r1 (drop pos m1) (contig_size opt) = Inr (True, r2)"
    and found: "inputPacketSize r2 \<noteq> 0"
    and dr: "drain r2 m1 sync_len pos (cout e) = Inr (start', r3, os3)"
  shows "after_drain opt e = Some (sync_len, start', r3, m1, is1, os3)"
proof -
  from win have ss: "min (contig_size opt) sync_len = contig_size opt"
    and lt: "pos < sync_len - contig_size opt + 1"
    by simp_all
  have "search opt r1 m1 (contig_size opt) 0 (sync_len - contig_size opt + 1) =
        search opt r1 m1 (contig_size opt) pos (sync_len - contig_size opt + 1)"
    using skip lt by (intro search_skip) simp_all
  also have "\<dots> = Inr (pos, r2)"
    using lt hit by (rule search_found_here)
  finally have se: "search opt r1 m1 (contig_size opt) 0 (sync_len - contig_size opt + 1) =
      Inr (pos, r2)" .
  show ?thesis
    using rd found dr se
    by (simp add: after_drain_def len [symmetric] ss)
qed

lemma first_turn_two_packets:
  assumes "packet_size opt = 0" and "contig_size opt = 376"
    and "1400 \<le> length s" and "s ! 0 = SYNC_BYTE" and "s ! 188 = SYNC_BYTE"
    and "s ! 376 \<noteq> SYNC_BYTE"
  shows "after_drain opt (first_turn k s) =
         Some (1400, 376,
               \<lparr>r_status = RS_OK, r_keep_packet_size = k, r_out_size = 376,
                r_in_pkt_size = 188, r_in_header_size = 0, r_out_pkt_size = 188,
                r_out_header_size = 0\<rparr>,
               take 1400 s, (input_of s)\<lparr>pending := drop 1400 s\<rparr>,
               spacious\<lparr>written := take 188 s @ take 188 (drop 188 s), room := 999624\<rparr>)"
    and "pass opt (first_turn k s) = Inr (False, second_turn k s)"
proof -
  define mem where "mem = take 1400 s"
  define r1 where "r1 = reset (new_Resynchronizer k)"
  define r2 where "r2 = r1\<lparr>r_in_pkt_size := 188, r_in_header_size := 0,
      r_out_pkt_size := 188, r_out_header_size := 0\<rparr>"
  define r3 where "r3 = \<lparr>r_status = RS_OK, r_keep_packet_size = k, r_out_size = 376,
      r_in_pkt_size = 188, r_in_header_size = 0, r_out_pkt_size = 188, r_out_header_size = 0\<rparr>"
  define is1 where "is1 = (input_of s)\<lparr>pending := drop 1400 s\<rparr>"
  define os3 where "os3 = spacious\<lparr>written := take 188 s @ take 188 (drop 188 s), room := 999624\<rparr>"
  let ?e = "first_turn k s"
  from assms(3) have len: "length mem = 1400"
    by (simp add: mem_def)
  from assms(4,5,6) have bytes: "mem ! 0 = SYNC_BYTE" "mem ! 188 = SYNC_BYTE"
    "mem ! 376 \<noteq> SYNC_BYTE"
    by (simp_all add: mem_def)
  have "readData r1 (input_of s) (replicate 1400 0) 0 1400 =
      Inr (1400, r1, (input_of s)\<lparr>pending := drop 1400 (pending (input_of s))\<rparr>,
           take 0 (replicate 1400 0) @ take 1400 (pending (input_of s)) @
           drop (0 + 1400) (replicate 1400 0))"
    using assms(3) by (intro readData_full) (simp_all add: input_of_def good_def)
  then have rd: "readData (reset (resync ?e)) (cin ?e) (sync_buf ?e) (sync_pre_size ?e)
      (length (sync_buf ?e) - sync_pre_size ?e) = Inr (1400, r1, is1, mem)"
    by (simp add: first_turn_def r1_def is1_def mem_def input_of_def)
  have hit: "probe opt r1 (drop 0 mem) (contig_size opt) = Inr (True, r2)"
    using probe_window [OF assms(1,2), of mem r1] bytes
    by (simp add: len r2_def)
  have r2: "r2 = \<lparr>r_status = RS_OK, r_keep_packet_size = k, r_out_size = 0,
      r_in_pkt_size = 188, r_in_header_size = 0, r_out_pkt_size = 188, r_out_header_size = 0\<rparr>"
    by (simp add: r2_def r1_def reset_def new_Resynchronizer_def)
  have marks: "\<forall>j<2. mem ! (0 + j * r_in_pkt_size r2 + r_in_header_size r2) = SYNC_BYTE"
  proof (intro allI impI)
    fix j :: nat assume "j < 2"
    then have "j = 0 \<or> j = 1"
      by auto
    with bytes show "mem ! (0 + j * r_in_pkt_size r2 + r_in_header_size r2) = SYNC_BYTE"
      by (auto simp: r2)
  qed
  have "drain r2 mem 1400 0 spacious =
      Inr (0 + 2 * r_in_pkt_size r2,
           r2\<lparr>r_out_size := (r_out_size r2 + 2 * r_out_pkt_size r2) mod 2 ^ 64\<rparr>,
           spacious\<lparr>written := written spacious @
                      concat (map (\<lambda>j. take (r_out_pkt_size r2)
                                          (drop (0 + j * r_in_pkt_size r2 +
                                                 (r_in_header_size r2 - r_out_header_size r2)) mem))
                                  [0..<2]),
                    room := room spacious - 2 * r_out_pkt_size r2\<rparr>)"
    using marks bytes
    by (intro drain_run) (simp_all add: r2 len spacious_def)
  moreover have "[0..<2] = [0, Suc 0]"
    by (simp add: upt_rec)
  moreover have "take 188 mem = take 188 s" "take 188 (drop 188 mem) = take 188 (drop 188 s)"
    by (simp_all add: mem_def drop_take)
  ultimately have dr: "drain r2 mem 1400 0 (cout ?e) = Inr (376, r3, os3)"
    by (simp add: r2 r3_def os3_def spacious_def first_turn_def)
  have ad: "after_drain opt ?e = Some (1400, 376, r3, mem, is1, os3)"
    using rd _ _ _ hit _ dr
    by (rule after_drain_found) (simp_all add: first_turn_def assms(2) r2 inputPacketSize_def)
  then show "after_drain opt (first_turn k s) =
         Some (1400, 376,
               \<lparr>r_status = RS_OK, r_keep_packet_size = k, r_out_size = 376,
                r_in_pkt_size = 188, r_in_header_size = 0, r_out_pkt_size = 188,
                r_out_header_size = 0\<rparr>,
               take 1400 s, (input_of s)\<lparr>pending := drop 1400 s\<rparr>,
               spacious\<lparr>written := take 188 s @ take 188 (drop 188 s), room := 999624\<rparr>)"
    by (simp add: r3_def mem_def is1_def os3_def)
  have co: "compaction r3 mem 376 1400 =
      Inr (setStatus r3 RS_SYNC_LOST, drop 376 mem @ drop 1024 mem, 1024)"
    using compaction_eq [of 376 1400 mem r3]
    by (simp add: len r3_def inputPacketSize_def)
  have e2: "\<lparr>resync = setStatus r3 RS_SYNC_LOST, sync_buf = drop 376 mem @ drop 1024 mem,
             sync_pre_size = 1024, cin = is1, cout = os3\<rparr> = second_turn k s"
    by (simp add: second_turn_def r3_def setStatus_def mem_def is1_def os3_def)
  have "status (resync (second_turn k s)) \<noteq> RS_OK"
    by (simp add: second_turn_def status_def)
  then have "steady (second_turn k s) = Inr (second_turn k s)"
    by (rule steady_stops)
  with pass_after_drain [OF ad] co e2 show "pass opt (first_turn k s) = Inr (False, second_turn k s)"
    by (simp add: r3_def status_def)
qed

lemma stray_stream_nth:
  assumes "i < 1428"
  shows "stray_stream ! i = (if i mod 204 = 0 \<or> i mod 204 = 188 then SYNC_BYTE else 0)"
proof -
  from assms have k: "i div 204 < length (replicate 7 stray_packet)"
    by simp
  have "stray_stream ! (i div 204 * PKT_RS_SIZE + i mod 204) =
        replicate 7 stray_packet ! (i div 204) ! (i mod 204)"
    unfolding stray_stream_def
    by (rule nth_concat_valid [OF stray_packets_valid k]) (simp add: PKT_RS_SIZE_def)
  with k have "stray_stream ! i = stray_packet ! (i mod 204)"
    by (simp add: PKT_RS_SIZE_def)
  also have "\<dots> = (if i mod 204 = 0 \<or> i mod 204 = 188 then SYNC_BYTE else 0)"
  proof -
    have "i mod 204 < 204"
      by simp
    then show ?thesis
      by (auto simp: stray_packet_def nth_append nth_Cons')
  qed
  finally show ?thesis .
qed

lemma second_turn_buffer:
  assumes "i < 1024" and "1400 \<le> length s"
  shows "sync_buf (second_turn k s) ! i = s ! (376 + i)"
  using assms by (simp add: second_turn_def nth_append)

lemma stray_second_turn:
  assumes "packet_size opt = 0" and "contig_size opt = 376"
  shows "\<exists>r m is os. after_drain opt (second_turn False stray_stream) =
                       Some (1024, 204, r, m, is, os) \<and>
           status r = RS_EOF \<and> inputPacketSize r = 192 \<and> outputFileBytes r = 564 \<and>
           outputFilePackets r = Some 3 \<and> length (written os) = 564"
proof -
  let ?e = "second_turn False stray_stream"
  define r0 where "r0 = reset (resync ?e)"
  define r1 where "r1 = r0\<lparr>r_status := RS_EOF\<rparr>"
  define r2 where "r2 = r1\<lparr>r_in_pkt_size := 192, r_in_header_size := 4,
      r_out_pkt_size := 188, r_out_header_size := 0\<rparr>"
  note sb = stray_stream_bytes
  have r1: "r1 = \<lparr>r_status = RS_EOF, r_keep_packet_size = False, r_out_size = 376,
      r_in_pkt_size = 0, r_in_header_size = 0, r_out_pkt_size = 188, r_out_header_size = 0\<rparr>"
    by (simp add: r1_def r0_def reset_def second_turn_def)
  have r2: "r2 = \<lparr>r_status = RS_EOF, r_keep_packet_size = False, r_out_size = 376,
      r_in_pkt_size = 192, r_in_header_size = 4, r_out_pkt_size = 188, r_out_header_size = 0\<rparr>"
    by (simp add: r2_def r1)
  \<comment> \<open>the read meets the end of the input\<close>
  have "\<exists>is' m'. readData r0 (cin ?e) (sync_buf ?e) 1024 376 = Inr (0, r0\<lparr>r_status := RS_EOF\<rparr>, is', m') \<and>
                  pending is' = [] \<and> length m' = length (sync_buf ?e)"
    by (rule readData_short) (simp_all add: second_turn_def input_of_def good_def sb)
  then obtain is1 m1 where rd0: "readData r0 (cin ?e) (sync_buf ?e) 1024 376 = Inr (0, r1, is1, m1)"
    and len0: "length m1 = length (sync_buf ?e)"
    unfolding r1_def by blast
  have len: "length m1 = 1400"
    using len0 by (simp add: second_turn_def sb)
  from readData_result [OF rd0] have tk: "take 1024 m1 = take 1024 (sync_buf ?e)"
    by simp
  have nth: "m1 ! i = (if (376 + i) mod 204 = 0 \<or> (376 + i) mod 204 = 188 then SYNC_BYTE else 0)"
    if "i < 1024" for i
  proof -
    from tk have "take 1024 m1 ! i = take 1024 (sync_buf ?e) ! i"
      by simp
    with that have "m1 ! i = sync_buf ?e ! i"
      by simp
    with that second_turn_buffer [OF that, of stray_stream False] show ?thesis
      by (simp add: sb stray_stream_nth)
  qed
  have rd: "readData (reset (resync ?e)) (cin ?e) (sync_buf ?e) (sync_pre_size ?e)
      (length (sync_buf ?e) - sync_pre_size ?e) = Inr (0, r1, is1, m1)"
    using rd0 by (simp add: r0_def second_turn_def sb)
  \<comment> \<open>the search\<close>
  have skip: "\<forall>i. i < 12 \<longrightarrow> probe opt r1 (drop i m1) (contig_size opt) = Inr (False, r1)"
  proof (intro allI impI)
    fix i :: nat assume i: "i < 12"
    have wrap: "(204 + x) mod 204 = x" if "x < 204" for x :: nat
      using that by simp
    from i wrap [of "172 + i"] wrap [of "176 + i"]
    have "(376 + i) mod 204 = 172 + i" "(376 + (i + 4)) mod 204 = 176 + i"
      by simp_all
    with i have "m1 ! i \<noteq> SYNC_BYTE" "m1 ! (i + 4) \<noteq> SYNC_BYTE"
      by (simp_all add: nth SYNC_BYTE_def)
    with i show "probe opt r1 (drop i m1) (contig_size opt) = Inr (False, r1)"
      using probe_window [OF assms, of "drop i m1" r1]
      by (simp add: len)
  qed
  have "m1 ! 12 \<noteq> SYNC_BYTE" "m1 ! 16 = SYNC_BYTE" "m1 ! 208 \<noteq> SYNC_BYTE"
    by (simp_all add: nth SYNC_BYTE_def)
  note bytes = this
  have hit: "probe opt r1 (drop 12 m1) (contig_size opt) = Inr (True, r2)"
    using probe_window [OF assms, of "drop 12 m1" r1] bytes
    by (simp add: len r2_def r1)
  \<comment> \<open>one packet is written, then the marker is missing\<close>
  have "drain r2 m1 1024 12 (cout ?e) =
      Inr (12 + 1 * r_in_pkt_size r2,
           r2\<lparr>r_out_size := (r_out_size r2 + 1 * r_out_pkt_size r2) mod 2 ^ 64\<rparr>,
           (cout ?e)\<lparr>written := written (cout ?e) @
                      concat (map (\<lambda>j. take (r_out_pkt_size r2)
                                          (drop (12 + j * r_in_pkt_size r2 +
                                                 (r_in_header_size r2 - r_out_header_size r2)) m1))
                                  [0..<1]),
                    room := room (cout ?e) - 1 * r_out_pkt_size r2\<rparr>)"
    using bytes
    by (intro drain_run) (simp_all add: r2 len second_turn_def spacious_def)
  then obtain os3 where dr: "drain r2 m1 1024 12 (cout ?e) =
      Inr (204, r2\<lparr>r_out_size := 564\<rparr>, os3)"
    and w: "written os3 = written (cout ?e) @ take 188 (drop 16 m1)"
    by (simp add: r2)
  have ad: "after_drain opt ?e = Some (1024, 204, r2\<lparr>r_out_size := 564\<rparr>, m1, is1, os3)"
    using rd _ _ skip hit _ dr
    by (rule after_drain_found) (simp_all add: second_turn_def assms(2) r2 inputPacketSize_def)
  moreover have "length (written os3) = 564"
    by (simp add: w second_turn_def sb len spacious_def)
  ultimately show ?thesis
    by (simp add: r2 status_def inputPacketSize_def outputFileBytes_def outputFilePackets_def
        udiv_def)
qed

lemma turn_summary_left:
  assumes "after_drain opt e = Some (sync_end, start, r, m, is, os)" and "status r \<noteq> RS_OK"
  shows "pass opt e = Inr (True, e\<lparr>resync := r, sync_buf := m, cin := is, cout := os\<rparr>)"
    and "turn_summary opt e = Some (True, status r, sync_pre_size e)"
proof -
  from pass_after_drain [OF assms(1)] assms(2)
  show "pass opt e = Inr (True, e\<lparr>resync := r, sync_buf := m, cin := is, cout := os\<rparr>)"
    by simp
  then show "turn_summary opt e = Some (True, status r, sync_pre_size e)"
    by (simp add: turn_summary_def)
qed

lemma two_turn_run:
  assumes "\<not> header_too_large opt" and "sync_size opt + contig_size opt = 1400"
    and "cont_sync opt"
    and "pass opt (first_turn (keep opt) s) = Inr (False, second_turn (keep opt) s)"
    and "after_drain opt (second_turn (keep opt) s) = Some (sync_end, start, r, m, is, os)"
    and "status r = RS_EOF"
  shows "main opt (input_of s) spacious = Some (Inr (EXIT_SUCCESS, Completed r, is, os))"
proof -
  let ?e2 = "second_turn (keep opt) s"
  let ?e3 = "?e2\<lparr>resync := r, sync_buf := m, cin := is, cout := os\<rparr>"
  have lost: "status (resync ?e2) = RS_SYNC_LOST"
    by (simp add: second_turn_def status_def)
  from assms(6) have "status r \<noteq> RS_OK"
    by simp
  from turn_summary_left(1) [OF assms(5) this] have "pass opt ?e2 = Inr (True, ?e3)" .
  then have "resync_loop opt ?e2 = Some (Inr ?e3)"
    by (rule resync_loop_ends) simp
  moreover have "resync_loop opt (first_turn (keep opt) s) = resync_loop opt ?e2"
    using assms(4) lost assms(3) by (rule resync_loop_again)
  ultimately have "resync_loop opt (first_turn (keep opt) s) = Some (Inr ?e3)"
    by simp
  with assms(1,2,6) show ?thesis
    by (simp add: main_def first_turn_def)
qed

subsection \<open>The bytes carried over stay inside the buffer\<close>

lemma readData_inside:
  assumes "readData r is m dst n = Inr (got, r', is', m')" and "0 < got"
  shows "dst + got \<le> length m"
  using assms cin_read_ok_length [of "is" n]
  by (auto simp: readData_eq store_def split: if_splits sum.splits)

lemma steady_step_carry_inside:
  assumes "steady_step e = Inr e'" and "sync_pre_size e \<le> length (sync_buf e)"
  shows "sync_pre_size e' \<le> length (sync_buf e')"
proof -
  let ?n = "inputPacketSize (resync e) - sync_pre_size e"
  from assms(1) have lt: "sync_pre_size e < inputPacketSize (resync e)"
    by (auto simp: steady_step_def split: if_splits)
  from assms(1) lt obtain got r1 is1 m1 where
    rd: "readData (resync e) (cin e) (sync_buf e) (sync_pre_size e) ?n = Inr (got, r1, is1, m1)"
    by (auto simp: steady_step_def split: sum.splits)
  from readData_result [OF rd] have len: "length m1 = length (sync_buf e)"
    and r1: "inputPacketSize r1 = inputPacketSize (resync e)"
    by (auto simp: inputPacketSize_def)
  show ?thesis
  proof (cases "got = ?n")
    case False
    with assms rd lt len show ?thesis
      by (auto simp: steady_step_def)
  next
    case True
    with lt have "0 < got"
      by simp
    from readData_inside [OF rd this] True lt
    have "inputPacketSize (resync e) \<le> length (sync_buf e)"
      by simp
    with assms rd lt len r1 True show ?thesis
      by (auto simp: steady_step_def split: sum.splits if_splits)
  qed
qed

lemma steady_carry_inside:
  assumes "steady e = Inr e'" and "sync_pre_size e \<le> length (sync_buf e)"
  shows "sync_pre_size e' \<le> length (sync_buf e')"
  using assms
proof (induction e rule: steady.induct)
  case (1 e)
  show ?case
  proof (cases "status (resync e) = RS_OK")
    case False
    with "1.prems" show ?thesis
      by (simp add: steady.simps [of e])
  next
    case True
    with "1.prems"(1) obtain e1 where s: "steady_step e = Inr e1" and st: "steady e1 = Inr e'"
      by (auto simp: steady.simps [of e] split: sum.splits)
    from steady_step_carry_inside [OF s "1.prems"(2)] "1.IH" [OF True s st]
    show ?thesis
      by simp
  qed
qed

lemma pass_carry_inside:
  assumes "pass opt e = Inr (left, e')" and "sync_pre_size e \<le> length (sync_buf e)"
  shows "sync_pre_size e' \<le> length (sync_buf e')"
proof (cases "after_drain opt e")
  case None
  with assms show ?thesis
    by (auto simp: pass_def after_drain_def Let_def split: sum.splits prod.splits if_splits
        dest!: readData_result)
next
  case (Some t)
  obtain sync_end start r m "is" os where t: "t = (sync_end, start, r, m, is, os)"
    by (cases t) auto
  note ad = Some [unfolded t]
  from ad obtain read_size r1 where
    rd: "readData (reset (resync e)) (cin e) (sync_buf e) (sync_pre_size e)
           (length (sync_buf e) - sync_pre_size e) = Inr (read_size, r1, is, m)"
    and se: "sync_end = sync_pre_size e + read_size"
    by (auto simp: after_drain_def Let_def split: sum.splits prod.splits if_splits)
  from readData_result [OF rd] assms(2) se have len: "length m = length (sync_buf e)"
    and inside: "sync_end \<le> length m"
    by auto
  show ?thesis
  proof (cases "status r = RS_OK")
    case False
    with pass_after_drain [OF ad] assms len show ?thesis
      by auto
  next
    case True
    with pass_after_drain [OF ad] assms(1) obtain r4 m2 pre where
      co: "compaction r m start sync_end = Inr (r4, m2, pre)"
      and st: "steady \<lparr>resync = r4, sync_buf = m2, sync_pre_size = pre, cin = is, cout = os\<rparr> =
                 Inr e'"
      by (auto split: sum.splits)
    from co inside have "pre \<le> length m2"
      by (auto simp: compaction_def memmove_def fetch_def store_def split: if_splits sum.splits)
    with steady_carry_inside [OF st] show ?thesis
      by simp
  qed
qed

section \<open>What is left after the first output loop\<close>

text \<open>
  Claim C7, as the code has it. A turn has reached the end of its first output loop with
  the data ending at \<open>sync_end\<close>, the position \<open>start\<close> and the resynchronizer \<open>r\<close>. The
  bytes carried over into the turn lie inside the buffer, as they do at every turn of a
  run: there are none at the start, and a turn keeps them inside (lemma
  \<open>pass_carry_inside\<close>). The claim holds when the status is \<open>RS_OK\<close> there: the bytes left
  are moved to the start of the buffer in their order; when they are at least one input
  packet the turn ends with the status \<open>RS_SYNC_LOST\<close>, the loop goes on to the next turn
  if the option to continue is set and ends otherwise, and the read of the next turn
  leaves the bytes carried over in place; when they are less than one input packet the
  loop that reads one packet at a time is entered. When the status is not \<open>RS_OK\<close> (the
  read of this turn met the end of the input, or a write failed) the test of line 380
  leaves the loop: the buffer is not compacted, the status stays, and the run ends,
  whatever is left.
\<close>

theorem leftover_after_drain:
  assumes "sync_pre_size e \<le> length (sync_buf e)"
    and "after_drain opt e = Some (sync_end, start, r, m, is, os)"
  shows "start \<le> sync_end \<and> sync_end \<le> length m \<and>
         (status r \<noteq> RS_OK \<longrightarrow>
            pass opt e = Inr (True, e\<lparr>resync := r, sync_buf := m, cin := is, cout := os\<rparr>) \<and>
            resync_loop opt e =
              Some (Inr (e\<lparr>resync := r, sync_buf := m, cin := is, cout := os\<rparr>))) \<and>
         (status r = RS_OK \<longrightarrow>
            (\<exists>m'. length m' = length m \<and>
                  take (sync_end - start) m' = take (sync_end - start) (drop start m) \<and>
                  (inputPacketSize r \<le> sync_end - start \<longrightarrow>
                     pass opt e =
                       Inr (False, \<lparr>resync = setStatus r RS_SYNC_LOST, sync_buf = m',
                                    sync_pre_size = sync_end - start, cin = is, cout = os\<rparr>) \<and>
                     resync_loop opt e =
                       (if cont_sync opt
                        then resync_loop opt
                               \<lparr>resync = setStatus r RS_SYNC_LOST, sync_buf = m',
                                sync_pre_size = sync_end - start, cin = is, cout = os\<rparr>
                        else Some (Inr \<lparr>resync = setStatus r RS_SYNC_LOST, sync_buf = m',
                                        sync_pre_size = sync_end - start, cin = is, cout = os\<rparr>)) \<and>
                     (\<forall>n r'' is' m''.
                        readData (reset (setStatus r RS_SYNC_LOST)) is m' (sync_end - start)
                          (length m' - (sync_end - start)) = Inr (n, r'', is', m'') \<longrightarrow>
                        take (sync_end - start) m'' = take (sync_end - start) (drop start m))) \<and>
                  (sync_end - start < inputPacketSize r \<longrightarrow>
                     pass opt e =
                       (case steady \<lparr>resync = r, sync_buf = m',
                                     sync_pre_size = sync_end - start, cin = is, cout = os\<rparr> of
                          Inl f \<Rightarrow> Inl f
                        | Inr e' \<Rightarrow> Inr (False, e')) \<and>
                     steady \<lparr>resync = r, sync_buf = m',
                             sync_pre_size = sync_end - start, cin = is, cout = os\<rparr> =
                       (case steady_step \<lparr>resync = r, sync_buf = m',
                                          sync_pre_size = sync_end - start, cin = is, cout = os\<rparr> of
                          Inl f \<Rightarrow> Inl f
                        | Inr e' \<Rightarrow> steady e'))))"
proof -
  let ?pre = "sync_end - start"
  define n where "n = length (sync_buf e) - sync_pre_size e"
  from assms(2) obtain read_size r1 start0 r2 where
    rd: "readData (reset (resync e)) (cin e) (sync_buf e) (sync_pre_size e) n =
           Inr (read_size, r1, is, m)"
    and len: "sync_end = sync_pre_size e + read_size"
    and se: "search opt r1 m (min (contig_size opt) sync_end) 0
               (sync_end - min (contig_size opt) sync_end + 1) = Inr (start0, r2)"
    and found: "inputPacketSize r2 \<noteq> 0"
    and dr: "drain r2 m sync_end start0 (cout e) = Inr (start, r, os)"
    unfolding after_drain_def n_def
    by (auto simp: Let_def split: sum.splits prod.splits if_splits)
  from readData_result [OF rd] have r1: "inputPacketSize r1 = 0"
    and got: "read_size = n \<or> read_size = 0" and lm: "length m = length (sync_buf e)"
    by (auto simp: inputPacketSize_def reset_def)
  from got assms(1) len lm have end_in: "sync_end \<le> length m"
    by (auto simp: n_def)
  from search_result [OF se] found r1 have "start0 < sync_end - min (contig_size opt) sync_end + 1"
    by auto
  then have "start0 \<le> sync_end"
    by simp
  from drain_bound [OF dr this] have start_in: "start \<le> sync_end" .
  define m' where "m' = (if start \<ge> sync_end then m else take ?pre (drop start m) @ drop ?pre m)"
  define r4 where "r4 = (if ?pre \<ge> inputPacketSize r then setStatus r RS_SYNC_LOST else r)"
  have co: "compaction r m start sync_end = Inr (r4, m', ?pre)"
    by (simp add: compaction_eq [OF start_in end_in] m'_def r4_def)
  from start_in end_in have lm': "length m' = length m"
    by (simp add: m'_def)
  from start_in end_in have carried: "take ?pre m' = take ?pre (drop start m)"
    by (simp add: m'_def)
  note p = pass_after_drain [OF assms(2)]
  have not_ok: "pass opt e = Inr (True, e\<lparr>resync := r, sync_buf := m, cin := is, cout := os\<rparr>) \<and>
      resync_loop opt e = Some (Inr (e\<lparr>resync := r, sync_buf := m, cin := is, cout := os\<rparr>))"
    if "status r \<noteq> RS_OK"
  proof -
    from p that have "pass opt e = Inr (True, e\<lparr>resync := r, sync_buf := m, cin := is, cout := os\<rparr>)"
      by simp
    then show ?thesis
      by (simp add: resync_loop.simps [of opt e])
  qed
  have lost: "pass opt e =
        Inr (False, \<lparr>resync = setStatus r RS_SYNC_LOST, sync_buf = m',
                     sync_pre_size = ?pre, cin = is, cout = os\<rparr>) \<and>
      resync_loop opt e =
        (if cont_sync opt
         then resync_loop opt \<lparr>resync = setStatus r RS_SYNC_LOST, sync_buf = m',
                               sync_pre_size = ?pre, cin = is, cout = os\<rparr>
         else Some (Inr \<lparr>resync = setStatus r RS_SYNC_LOST, sync_buf = m',
                         sync_pre_size = ?pre, cin = is, cout = os\<rparr>)) \<and>
      (\<forall>n r'' is' m''.
         readData (reset (setStatus r RS_SYNC_LOST)) is m' ?pre (length m' - ?pre) =
           Inr (n, r'', is', m'') \<longrightarrow>
         take ?pre m'' = take ?pre (drop start m))"
    if ok: "status r = RS_OK" and big: "inputPacketSize r \<le> ?pre"
  proof -
    let ?E = "\<lparr>resync = setStatus r RS_SYNC_LOST, sync_buf = m',
               sync_pre_size = ?pre, cin = is, cout = os\<rparr>"
    have st: "status (resync ?E) = RS_SYNC_LOST"
      by (simp add: status_def setStatus_def)
    then have "steady ?E = Inr ?E"
      by (intro steady_stops) simp
    with p ok co big have pa: "pass opt e = Inr (False, ?E)"
      by (simp add: r4_def)
    from pa st have "resync_loop opt e =
        (if cont_sync opt then resync_loop opt ?E else Some (Inr ?E))"
      by (simp add: resync_loop.simps [of opt e])
    moreover have "take ?pre m'' = take ?pre (drop start m)"
      if "readData (reset (setStatus r RS_SYNC_LOST)) is m' ?pre (length m' - ?pre) =
            Inr (n, r'', is', m'')" for n r'' is' m''
      using readData_result [OF that] carried by simp
    ultimately show ?thesis
      using pa by blast
  qed
  have small: "pass opt e =
        (case steady \<lparr>resync = r, sync_buf = m', sync_pre_size = ?pre, cin = is, cout = os\<rparr> of
           Inl f \<Rightarrow> Inl f
         | Inr e' \<Rightarrow> Inr (False, e')) \<and>
      steady \<lparr>resync = r, sync_buf = m', sync_pre_size = ?pre, cin = is, cout = os\<rparr> =
        (case steady_step \<lparr>resync = r, sync_buf = m', sync_pre_size = ?pre,
                           cin = is, cout = os\<rparr> of
           Inl f \<Rightarrow> Inl f
         | Inr e' \<Rightarrow> steady e')"
    if ok: "status r = RS_OK" and less: "?pre < inputPacketSize r"
  proof -
    from p ok co less have "pass opt e =
        (case steady \<lparr>resync = r, sync_buf = m', sync_pre_size = ?pre, cin = is, cout = os\<rparr> of
           Inl f \<Rightarrow> Inl f
         | Inr e' \<Rightarrow> Inr (False, e'))"
      by (simp add: r4_def)
    moreover from ok have "steady \<lparr>resync = r, sync_buf = m', sync_pre_size = ?pre,
                                   cin = is, cout = os\<rparr> =
        (case steady_step \<lparr>resync = r, sync_buf = m', sync_pre_size = ?pre,
                           cin = is, cout = os\<rparr> of
           Inl f \<Rightarrow> Inl f
         | Inr e' \<Rightarrow> steady e')"
      by (intro steady_unfold) simp
    ultimately show ?thesis
      by blast
  qed
  from start_in end_in not_ok lm' carried lost small show ?thesis
    by blast
qed

theorem leftover_after_drain_witness:
  "sync_pre_size (first_turn False stray_stream) \<le> length (sync_buf (first_turn False stray_stream)) \<and>
   drain_summary standard (first_turn False stray_stream) = Some (1024, 188, RS_OK) \<and>
   turn_summary standard (first_turn False stray_stream) = Some (False, RS_SYNC_LOST, 1024) \<and>
   sync_pre_size (second_turn False stray_stream) \<le> length (sync_buf (second_turn False stray_stream)) \<and>
   drain_summary standard (second_turn False stray_stream) = Some (820, 192, RS_EOF) \<and>
   turn_summary standard (second_turn False stray_stream) = Some (True, RS_EOF, 1024)"
proof -
  let ?e1 = "first_turn False stray_stream" and ?e2 = "second_turn False stray_stream"
  let ?r = "\<lparr>r_status = RS_OK, r_keep_packet_size = False, r_out_size = 376,
             r_in_pkt_size = 188, r_in_header_size = 0, r_out_pkt_size = 188,
             r_out_header_size = 0\<rparr>"
  have opt: "packet_size standard = 0" "contig_size standard = 376"
    by (simp_all add: standard_def)
  note sb = stray_stream_bytes
  have wf1: "sync_pre_size ?e1 \<le> length (sync_buf ?e1)"
    by (simp add: first_turn_def)
  have wf2: "sync_pre_size ?e2 \<le> length (sync_buf ?e2)"
    by (simp add: second_turn_def sb)
  have ad1: "after_drain standard ?e1 =
      Some (1400, 376, ?r, take 1400 stray_stream,
            (input_of stray_stream)\<lparr>pending := drop 1400 stray_stream\<rparr>,
            spacious\<lparr>written := take 188 stray_stream @ take 188 (drop 188 stray_stream),
                     room := 999624\<rparr>)"
    by (rule first_turn_two_packets(1)) (simp_all add: opt sb)
  have st1: "status ?r = RS_OK" and big: "inputPacketSize ?r \<le> 1400 - 376"
    by (simp_all add: status_def inputPacketSize_def)
  from leftover_after_drain [OF wf1 ad1] st1 big
  obtain m' where "pass standard ?e1 =
      Inr (False, \<lparr>resync = setStatus ?r RS_SYNC_LOST, sync_buf = m',
                   sync_pre_size = 1400 - 376,
                   cin = (input_of stray_stream)\<lparr>pending := drop 1400 stray_stream\<rparr>,
                   cout = spacious\<lparr>written := take 188 stray_stream @
                                             take 188 (drop 188 stray_stream),
                                  room := 999624\<rparr>\<rparr>)"
    by blast
  then have ts1: "turn_summary standard ?e1 = Some (False, RS_SYNC_LOST, 1024)"
    by (simp add: turn_summary_def status_def setStatus_def)
  from ad1 have ds1: "drain_summary standard ?e1 = Some (1024, 188, RS_OK)"
    by (simp add: drain_summary_def status_def inputPacketSize_def)
  from stray_second_turn [OF opt] obtain r m "is" os where
    ad2: "after_drain standard ?e2 = Some (1024, 204, r, m, is, os)"
    and r: "status r = RS_EOF" "inputPacketSize r = 192"
    by blast
  from r have "status r \<noteq> RS_OK"
    by simp
  with leftover_after_drain [OF wf2 ad2]
  have "pass standard ?e2 = Inr (True, ?e2\<lparr>resync := r, sync_buf := m, cin := is, cout := os\<rparr>)"
    by blast
  with r have ts2: "turn_summary standard ?e2 = Some (True, RS_EOF, 1024)"
    by (simp add: turn_summary_def second_turn_def)
  from ad2 r have ds2: "drain_summary standard ?e2 = Some (820, 192, RS_EOF)"
    by (simp add: drain_summary_def)
  from wf1 ds1 ts1 wf2 ds2 ts2 show ?thesis
    by (intro conjI)
qed

text \<open>
  Claim C7 as it is stated fails when the status after the first output loop is not
  \<open>RS_OK\<close>. The input is seven 204-byte packets whose trailers begin with the byte 0x47,
  with the option to continue. The first turn writes two blocks of 188 bytes and carries
  1024 bytes over with the status \<open>RS_SYNC_LOST\<close>. In the second turn the read meets the
  end of the input and sets \<open>RS_EOF\<close>; the search settles on the framing 192/4 at offset
  12, one packet is written, and 820 bytes are left, more than four packets of 192
  bytes. The turn is left by \<open>break\<close> with the status \<open>RS_EOF\<close>, not \<open>RS_SYNC_LOST\<close>, and
  the program exits with success.
\<close>

theorem leftover_dropped_at_end_counterexample:
  "pass continuing (first_turn False stray_stream) = Inr (False, second_turn False stray_stream) \<and>
   status (resync (second_turn False stray_stream)) = RS_SYNC_LOST \<and>
   drain_summary continuing (second_turn False stray_stream) = Some (820, 192, RS_EOF) \<and>
   turn_summary continuing (second_turn False stray_stream) = Some (True, RS_EOF, 1024) \<and>
   run_counts (main continuing (input_of stray_stream) spacious) =
     Some (EXIT_SUCCESS, RS_EOF, 564, Some 3, 564)"
proof -
  let ?e1 = "first_turn False stray_stream" and ?e2 = "second_turn False stray_stream"
  have opt: "packet_size continuing = 0" "contig_size continuing = 376"
    "\<not> header_too_large continuing" "sync_size continuing + contig_size continuing = 1400"
    "cont_sync continuing" "keep continuing = False" "sync_size continuing = 1024"
    by (simp_all add: continuing_def header_too_large_def)
  note sb = stray_stream_bytes
  have p1: "pass continuing ?e1 = Inr (False, ?e2)"
    by (rule first_turn_two_packets(2)) (simp_all add: opt sb)
  have lost: "status (resync ?e2) = RS_SYNC_LOST"
    by (simp add: second_turn_def status_def)
  from stray_second_turn [OF opt(1,2)] obtain r m "is" os where
    ad: "after_drain continuing ?e2 = Some (1024, 204, r, m, is, os)"
    and r: "status r = RS_EOF" "inputPacketSize r = 192" "outputFileBytes r = 564"
      "outputFilePackets r = Some 3" and os: "length (written os) = 564"
    by blast
  from ad r have ds: "drain_summary continuing ?e2 = Some (820, 192, RS_EOF)"
    by (simp add: drain_summary_def)
  from r have "status r \<noteq> RS_OK"
    by simp
  from turn_summary_left(2) [OF ad this] r
  have ts: "turn_summary continuing ?e2 = Some (True, RS_EOF, 1024)"
    by (simp add: second_turn_def)
  from p1 ad have "main continuing (input_of stray_stream) spacious =
      Some (Inr (EXIT_SUCCESS, Completed r, is, os))"
    by (intro two_turn_run [of continuing stray_stream 1024 204 r m "is" os])
       (simp_all add: opt r)
  with r os have "run_counts (main continuing (input_of stray_stream) spacious) =
      Some (EXIT_SUCCESS, RS_EOF, 564, Some 3, 564)"
    by (simp add: run_counts_def)
  with p1 lost ds ts show ?thesis
    by (intro conjI)
qed

section \<open>The total of packets across a restart\<close>

lemma rs_packets_valid: "valid_packets PKT_RS_SIZE 0 (replicate n rs_packet)"
  by (simp add: valid_packets_def rs_packet_def PKT_RS_SIZE_def)

lemma slice_concat_valid:
  assumes "valid_packets pkt hdr pkts" and "j < length pkts"
  shows "take pkt (drop (j * pkt) (concat pkts @ tl_bytes)) = pkts ! j"
  using assms
proof (induction pkts arbitrary: j)
  case Nil
  then show ?case by simp
next
  case (Cons P pkts)
  then have len: "length P = pkt" and v: "valid_packets pkt hdr pkts"
    by simp_all
  show ?case
  proof (cases j)
    case 0
    with len show ?thesis
      by simp
  next
    case (Suc i)
    with Cons.prems have "i < length pkts"
      by simp
    from Cons.IH [OF v this] Suc len show ?thesis
      by simp
  qed
qed

lemma mixed_stream_length: "length mixed_stream = 1400"
  by (simp add: mixed_stream_def good_packet_def
      length_concat_valid [OF rs_packets_valid] PKT_RS_SIZE_def)

lemma mixed_stream_front:
  "take 188 mixed_stream = good_packet" "take 188 (drop 188 mixed_stream) = good_packet"
  "drop 377 mixed_stream = concat (replicate 5 rs_packet) @ [0, 0, 0]"
  "mixed_stream ! 376 = 0"
  by (simp_all add: mixed_stream_def good_packet_def nth_append)

lemma mixed_stream_bytes:
  "mixed_stream ! 0 = SYNC_BYTE" "mixed_stream ! 188 = SYNC_BYTE"
  "mixed_stream ! 376 \<noteq> SYNC_BYTE"
  by (simp_all add: mixed_stream_def good_packet_def nth_append SYNC_BYTE_def)

lemma mixed_stream_tail:
  assumes "377 \<le> i" and "i < 1397"
  shows "mixed_stream ! i = (if (i - 377) mod 204 = 0 then SYNC_BYTE else 0)"
proof -
  define x where "x = i - 377"
  from assms have i: "i = 377 + x" and x: "x < 1020"
    by (simp_all add: x_def)
  have "mixed_stream ! (377 + x) = drop 377 mixed_stream ! x"
    by (simp add: mixed_stream_length)
  also have "\<dots> = concat (replicate 5 rs_packet) ! x"
    using x by (simp add: mixed_stream_front nth_append
        length_concat_valid [OF rs_packets_valid] PKT_RS_SIZE_def)
  also have "\<dots> = concat (replicate 5 rs_packet) ! (x div 204 * PKT_RS_SIZE + x mod 204)"
    by (simp add: PKT_RS_SIZE_def)
  also have "\<dots> = replicate 5 rs_packet ! (x div 204) ! (x mod 204)"
    using x by (intro nth_concat_valid [OF rs_packets_valid]) (simp_all add: PKT_RS_SIZE_def)
  also have "\<dots> = rs_packet ! (x mod 204)"
    using x by simp
  also have "\<dots> = (if x mod 204 = 0 then SYNC_BYTE else 0)"
  proof -
    have "x mod 204 < 204"
      by simp
    then show ?thesis
      by (auto simp: rs_packet_def nth_Cons')
  qed
  finally show ?thesis
    by (simp add: i)
qed

lemma mixed_second_turn:
  assumes "packet_size opt = 0" and "contig_size opt = 376"
  shows "\<exists>r m is os. after_drain opt (second_turn True mixed_stream) =
                       Some (1024, 1021, r, m, is, os) \<and>
           status r = RS_EOF \<and> outputPacketSize r = 204 \<and> outputFileBytes r = 1396 \<and>
           outputFilePackets r = Some 6 \<and>
           written os = good_packet @ good_packet @ concat (replicate 5 rs_packet)"
proof -
  let ?e = "second_turn True mixed_stream"
  define r0 where "r0 = reset (resync ?e)"
  define r1 where "r1 = r0\<lparr>r_status := RS_EOF\<rparr>"
  define r2 where "r2 = r1\<lparr>r_in_pkt_size := 204, r_in_header_size := 0,
      r_out_pkt_size := 204, r_out_header_size := 0\<rparr>"
  define m1 where "m1 = sync_buf ?e"
  note ml = mixed_stream_length
  have r1: "r1 = \<lparr>r_status = RS_EOF, r_keep_packet_size = True, r_out_size = 376,
      r_in_pkt_size = 0, r_in_header_size = 0, r_out_pkt_size = 188, r_out_header_size = 0\<rparr>"
    by (simp add: r1_def r0_def reset_def second_turn_def)
  have r2: "r2 = \<lparr>r_status = RS_EOF, r_keep_packet_size = True, r_out_size = 376,
      r_in_pkt_size = 204, r_in_header_size = 0, r_out_pkt_size = 204, r_out_header_size = 0\<rparr>"
    by (simp add: r2_def r1)
  have len: "length m1 = 1400"
    by (simp add: m1_def second_turn_def ml)
  \<comment> \<open>the read meets the end of the input\<close>
  have "\<exists>is'. readData r0 (cin ?e) m1 1024 376 = Inr (0, r0\<lparr>r_status := RS_EOF\<rparr>, is', m1) \<and>
               pending is' = [] \<and> fail is'"
    by (rule readData_at_end) (simp_all add: second_turn_def ml len)
  then obtain is1 where rd0: "readData r0 (cin ?e) m1 1024 376 = Inr (0, r1, is1, m1)"
    unfolding r1_def by blast
  have rd: "readData (reset (resync ?e)) (cin ?e) (sync_buf ?e) (sync_pre_size ?e)
      (length (sync_buf ?e) - sync_pre_size ?e) = Inr (0, r1, is1, m1)"
    using rd0 len by (simp add: r0_def m1_def [symmetric]) (simp add: second_turn_def)
  have nth: "m1 ! i = mixed_stream ! (376 + i)" if "i < 1024" for i
    unfolding m1_def using that by (intro second_turn_buffer) (simp_all add: ml)
  have tail: "m1 ! i = (if (i - 1) mod 204 = 0 then SYNC_BYTE else 0)" if "1 \<le> i" "i < 1021" for i
    using that mixed_stream_tail [of "376 + i"] by (simp add: nth)
  \<comment> \<open>the search\<close>
  have b0: "m1 ! 0 \<noteq> SYNC_BYTE" "m1 ! 4 \<noteq> SYNC_BYTE"
    and b1: "m1 ! 1 = SYNC_BYTE" "m1 ! 189 \<noteq> SYNC_BYTE"
    using nth [of 0] mixed_stream_bytes(3) tail [of 4] tail [of 1] tail [of 189]
    by (simp_all add: SYNC_BYTE_def)
  have skip: "\<forall>i. i < 1 \<longrightarrow> probe opt r1 (drop i m1) (contig_size opt) = Inr (False, r1)"
    using probe_window [OF assms, of "drop 0 m1" r1] b0
    by (simp add: len)
  have hit: "probe opt r1 (drop 1 m1) (contig_size opt) = Inr (True, r2)"
    using probe_window [OF assms, of "drop 1 m1" r1] b1
    by (simp add: len r2_def r1)
  \<comment> \<open>five packets of 204 bytes are written\<close>
  have marks: "\<forall>j<5. m1 ! (1 + j * r_in_pkt_size r2 + r_in_header_size r2) = SYNC_BYTE"
  proof (intro allI impI)
    fix j :: nat assume "j < 5"
    then show "m1 ! (1 + j * r_in_pkt_size r2 + r_in_header_size r2) = SYNC_BYTE"
      by (simp add: r2 tail)
  qed
  let ?out = "concat (map (\<lambda>j. take 204 (drop (1 + j * 204) m1)) [0..<5])"
  have "drain r2 m1 1024 1 (cout ?e) =
      Inr (1 + 5 * r_in_pkt_size r2,
           r2\<lparr>r_out_size := (r_out_size r2 + 5 * r_out_pkt_size r2) mod 2 ^ 64\<rparr>,
           (cout ?e)\<lparr>written := written (cout ?e) @
                      concat (map (\<lambda>j. take (r_out_pkt_size r2)
                                          (drop (1 + j * r_in_pkt_size r2 +
                                                 (r_in_header_size r2 - r_out_header_size r2)) m1))
                                  [0..<5]),
                    room := room (cout ?e) - 5 * r_out_pkt_size r2\<rparr>)"
    using marks
    by (intro drain_run) (simp_all add: r2 len second_turn_def spacious_def)
  then obtain os3 where dr: "drain r2 m1 1024 1 (cout ?e) =
      Inr (1021, r2\<lparr>r_out_size := 1396\<rparr>, os3)"
    and w: "written os3 = written (cout ?e) @ ?out"
    by (simp add: r2)
  have ad: "after_drain opt ?e = Some (1024, 1021, r2\<lparr>r_out_size := 1396\<rparr>, m1, is1, os3)"
    using rd _ _ skip hit _ dr
    by (rule after_drain_found) (simp_all add: second_turn_def assms(2) r2 inputPacketSize_def)
  \<comment> \<open>the output is the seven packets of the input\<close>
  have m1: "m1 = [0] @ (concat (replicate 5 rs_packet) @ [0, 0, 0] @ drop 1024 mixed_stream)"
  proof -
    have "m1 = drop 376 mixed_stream @ drop 1024 mixed_stream"
      by (simp add: m1_def second_turn_def ml)
    also have "drop 376 mixed_stream = mixed_stream ! 376 # drop 377 mixed_stream"
      using Cons_nth_drop_Suc [of 376 mixed_stream] by (simp add: ml)
    finally show ?thesis
      by (simp add: mixed_stream_front(3,4))
  qed
  have "take 204 (drop (1 + j * 204) m1) = replicate 5 rs_packet ! j" if "j < 5" for j
  proof -
    have "drop (1 + j * 204) m1 =
        drop (j * PKT_RS_SIZE) (concat (replicate 5 rs_packet) @ [0, 0, 0] @ drop 1024 mixed_stream)"
      by (subst m1) (simp add: PKT_RS_SIZE_def)
    then show ?thesis
      using slice_concat_valid [OF rs_packets_valid, of j 5] that
      by (simp add: PKT_RS_SIZE_def)
  qed
  then have "map (\<lambda>j. take 204 (drop (1 + j * 204) m1)) [0..<5] =
      map (\<lambda>j. replicate 5 rs_packet ! j) [0..<length (replicate 5 rs_packet)]"
    by simp
  then have out: "?out = concat (replicate 5 rs_packet)"
    by (simp only: map_nth)
  have "written os3 = good_packet @ good_packet @ concat (replicate 5 rs_packet)"
    unfolding w out by (simp add: second_turn_def mixed_stream_front)
  with ad show ?thesis
    by (simp add: r2 status_def outputPacketSize_def outputFileBytes_def outputFilePackets_def
        udiv_def)
qed

text \<open>
  Claim C6 says that the totals of bytes and of packets that the program reports never
  decrease. The total of bytes does not (lemma \<open>totals_across_operations\<close>). The total of
  packets does: \<open>outputFilePackets\<close>, under the comment "Get output size so far in bytes
  and packets", is not a count of the packets written but the quotient of the bytes by
  the current output packet size, and \<open>checkSync\<close> changes that size. Here the packet size is kept,
  with the option to continue, and the input is two 188-byte packets, one stray byte,
  five 204-byte packets and three more bytes. After the first turn two packets are
  written and two reported. In the second turn the call of \<open>checkSync\<close> that confirms the
  size 204 leaves the 376 bytes and lowers the total of packets from 2 to 1. The run
  ends with success: its output is the seven packets, 1396 bytes, and it reports six.
\<close>

theorem packet_total_drops_on_restart:
  "declared_bounds keeping \<and>
   pass keeping (first_turn True mixed_stream) = Inr (False, second_turn True mixed_stream) \<and>
   outputFileBytes (resync (second_turn True mixed_stream)) = 376 \<and>
   outputFilePackets (resync (second_turn True mixed_stream)) = Some 2 \<and>
   (case checkSync (setStatus (reset (resync (second_turn True mixed_stream))) RS_EOF)
           (drop 1 (sync_buf (second_turn True mixed_stream))) 376 PKT_RS_SIZE 0 of
      Inl f \<Rightarrow> None
    | Inr (found, r') \<Rightarrow> Some (found, outputFileBytes r', outputFilePackets r')) =
     Some (True, 376, Some 1) \<and>
   run_summary (main keeping (input_of mixed_stream) spacious) =
     Some (EXIT_SUCCESS, Some RS_EOF, good_packet @ good_packet @ concat (replicate 5 rs_packet)) \<and>
   run_counts (main keeping (input_of mixed_stream) spacious) =
     Some (EXIT_SUCCESS, RS_EOF, 1396, Some 6, 1396)"
proof -
  let ?e1 = "first_turn True mixed_stream" and ?e2 = "second_turn True mixed_stream"
  have opt: "packet_size keeping = 0" "contig_size keeping = 376"
    "\<not> header_too_large keeping" "sync_size keeping + contig_size keeping = 1400"
    "cont_sync keeping" "keep keeping = True" "sync_size keeping = 1024"
    by (simp_all add: keeping_def header_too_large_def)
  have bounds: "declared_bounds keeping"
    by (simp add: keeping_def declared_bounds_def MIN_SYNC_SIZE_def MAX_SYNC_SIZE_def
        MIN_CONTIG_SIZE_def MAX_CONTIG_SIZE_def PKT_SIZE_def)
  note ml = mixed_stream_length
  have p1: "pass keeping ?e1 = Inr (False, ?e2)"
    by (rule first_turn_two_packets(2)) (simp_all add: opt ml mixed_stream_bytes)
  have before: "outputFileBytes (resync ?e2) = 376" "outputFilePackets (resync ?e2) = Some 2"
    by (simp_all add: second_turn_def outputFileBytes_def outputFilePackets_def udiv_def)
  \<comment> \<open>the call of \<open>checkSync\<close> that confirms the size 204\<close>
  let ?r1 = "setStatus (reset (resync ?e2)) RS_EOF"
  have len: "376 \<le> length (drop 1 (sync_buf ?e2))"
    by (simp add: second_turn_def ml)
  have "sync_buf ?e2 ! 1 = mixed_stream ! (376 + 1)"
    by (rule second_turn_buffer) (simp_all add: ml)
  with mixed_stream_tail [of 377] have "drop 1 (sync_buf ?e2) ! 0 = SYNC_BYTE"
    using len by simp
  then have "all_strides (drop 1 (sync_buf ?e2)) 376 PKT_RS_SIZE 0"
    using all_strides_one [of PKT_RS_SIZE 376 "drop 1 (sync_buf ?e2)" 0]
    by (simp add: PKT_RS_SIZE_def)
  moreover have "0 + PKT_SIZE \<le> PKT_RS_SIZE"
    by (simp add: PKT_SIZE_def PKT_RS_SIZE_def)
  ultimately have "checkSync ?r1 (drop 1 (sync_buf ?e2)) 376 PKT_RS_SIZE 0 =
      Inr (True, ?r1\<lparr>r_in_pkt_size := PKT_RS_SIZE, r_in_header_size := 0,
                    r_out_pkt_size := (if r_keep_packet_size ?r1 then PKT_RS_SIZE else PKT_SIZE),
                    r_out_header_size := (if r_keep_packet_size ?r1 then 0 else 0)\<rparr>)"
    using checkSync_eq [OF _ len, of 0 PKT_RS_SIZE ?r1] by simp
  then have drop: "(case checkSync ?r1 (drop 1 (sync_buf ?e2)) 376 PKT_RS_SIZE 0 of
      Inl f \<Rightarrow> None
    | Inr (found, r') \<Rightarrow> Some (found, outputFileBytes r', outputFilePackets r')) =
     Some (True, 376, Some 1)"
    by (simp add: second_turn_def setStatus_def reset_def outputFileBytes_def
        outputFilePackets_def udiv_def PKT_RS_SIZE_def)
  \<comment> \<open>the whole run\<close>
  from mixed_second_turn [OF opt(1,2)] obtain r m "is" os where
    ad: "after_drain keeping ?e2 = Some (1024, 1021, r, m, is, os)"
    and r: "status r = RS_EOF" "outputFileBytes r = 1396" "outputFilePackets r = Some 6"
    and os: "written os = good_packet @ good_packet @ concat (replicate 5 rs_packet)"
    by blast
  from p1 ad have run: "main keeping (input_of mixed_stream) spacious =
      Some (Inr (EXIT_SUCCESS, Completed r, is, os))"
    by (intro two_turn_run [of keeping mixed_stream 1024 1021 r m "is" os])
       (simp_all add: opt r)
  have "length (written os) = 1396"
    unfolding os by (simp add: good_packet_def length_concat_valid [OF rs_packets_valid]
        PKT_RS_SIZE_def)
  with run r have counts: "run_counts (main keeping (input_of mixed_stream) spacious) =
      Some (EXIT_SUCCESS, RS_EOF, 1396, Some 6, 1396)"
    by (simp add: run_counts_def)
  from run r os have summary: "run_summary (main keeping (input_of mixed_stream) spacious) =
      Some (EXIT_SUCCESS, Some RS_EOF, good_packet @ good_packet @ concat (replicate 5 rs_packet))"
    by (simp add: run_summary_def)
  from bounds p1 before drop summary counts show ?thesis
    by (intro conjI)
qed

end
